theory Spec2Isabelle
  imports Complex_Main "HOL-Library.Word"
begin

section \<open>Data model\<close>

text \<open>
  The compressor works on decoded 8-bit three-channel rasters. A pixel (\<open>Vec3b\<close>) is three
  unsigned bytes; a raster (\<open>Mat\<close>) has a column count, a row count and a pixel at every
  (row, column). A region of interest of a raster is again a raster, addressed from its own
  origin, as \<open>image(Rect(...))\<close> is in the source. The source computes its error metrics in
  double precision; the model computes them over the reals, except for the two roundings
  inside \<open>cv::mean\<close>, which decide whether the mean of a single-coloured block is that colour.
\<close>

type_synonym uchar = "8 word"

datatype Vec3b = Vec3b (ch0: uchar) (ch1: uchar) (ch2: uchar)

fun chan :: "Vec3b \<Rightarrow> nat \<Rightarrow> uchar" where
  "chan p c = (if c = 0 then ch0 p else if c = 1 then ch1 p else ch2 p)"

definition val :: "Vec3b \<Rightarrow> nat \<Rightarrow> int" where
  "val p c = uint (chan p c)"

record Mat =
  cols :: nat
  rows :: nat
  pixel_at :: "int \<Rightarrow> int \<Rightarrow> Vec3b"

record Rect =
  rect_x :: int
  rect_y :: int
  rect_width :: int
  rect_height :: int

datatype ErrorMethod = VARIANCE | MAD | MAX_PIXEL_DIFF | ENTROPY | SSIM

definition mat_empty :: "Mat \<Rightarrow> bool" where
  "mat_empty b = (rows b = 0 \<or> cols b = 0)"

definition roi :: "Mat \<Rightarrow> Rect \<Rightarrow> Mat" where
  "roi img r =
     \<lparr> cols = nat (rect_width r), rows = nat (rect_height r),
       pixel_at = (\<lambda>i j. pixel_at img (rect_y r + i) (rect_x r + j)) \<rparr>"

definition uniform_mat :: "nat \<Rightarrow> nat \<Rightarrow> Vec3b \<Rightarrow> Mat" where
  "uniform_mat w h c = \<lparr> cols = w, rows = h, pixel_at = (\<lambda>i j. c) \<rparr>"

text \<open>The pixels of a raster in the order of the source's nested loops (rows outside).\<close>

definition pixels :: "Mat \<Rightarrow> Vec3b list" where
  "pixels b =
     concat (map (\<lambda>i. map (\<lambda>j. pixel_at b (int i) (int j)) [0..<cols b]) [0..<rows b])"

text \<open>C++ integer division truncates towards zero.\<close>

definition cdiv :: "int \<Rightarrow> int \<Rightarrow> int" where
  "cdiv a b = sgn a * sgn b * (\<bar>a\<bar> div \<bar>b\<bar>)"

text \<open>
  Rounding of a real to the nearest binary64 number, ties to even: the value is scaled so
  that its significand has 53 bits and rounded to an integer there. The exponent range is
  not modelled; the quantities rounded below are pixel sums and reciprocals of pixel
  counts, far inside it.
\<close>

definition round_half_even :: "real \<Rightarrow> int" where
  "round_half_even r =
     (if r - of_int \<lfloor>r\<rfloor> < 1 / 2 then \<lfloor>r\<rfloor>
      else if r - of_int \<lfloor>r\<rfloor> > 1 / 2 then \<lfloor>r\<rfloor> + 1
      else if even \<lfloor>r\<rfloor> then \<lfloor>r\<rfloor> else \<lfloor>r\<rfloor> + 1)"

definition round_double :: "real \<Rightarrow> real" where
  "round_double x =
     (if x = 0 then 0
      else let e = \<lfloor>log 2 \<bar>x\<bar>\<rfloor> - 52
           in real_of_int (round_half_even (x / 2 powr real_of_int e)) * 2 powr real_of_int e)"

text \<open>
  OpenCV's \<open>cv::mean\<close>: the per-channel sum of the raster (exact, the bytes are summed as
  integers) times the reciprocal of the pixel count, \<open>s * (1. / N)\<close>, in double precision:
  the reciprocal is rounded and so is the product. \<open>cvRound\<close> and \<open>saturate_cast<uchar>\<close>:
  rounding to the nearest integer, ties to even, clipped to a byte.
\<close>

definition cv_mean :: "Mat \<Rightarrow> nat \<Rightarrow> real" where
  "cv_mean b c =
     (if pixels b = [] then 0
      else round_double ((\<Sum>p\<leftarrow>pixels b. real_of_int (val p c))
                           * round_double (1 / real (length (pixels b)))))"

definition cvRound :: "real \<Rightarrow> int" where
  "cvRound r =
     (if r - of_int \<lfloor>r\<rfloor> < 1 / 2 then \<lfloor>r\<rfloor>
      else if r - of_int \<lfloor>r\<rfloor> > 1 / 2 then \<lfloor>r\<rfloor> + 1
      else if even \<lfloor>r\<rfloor> then \<lfloor>r\<rfloor> else \<lfloor>r\<rfloor> + 1)"

definition saturate_uchar :: "real \<Rightarrow> uchar" where
  "saturate_uchar r = word_of_int (max 0 (min 255 (cvRound r)))"

section \<open>Error metrics\<close>

definition calculateVariance :: "Mat \<Rightarrow> real" where
  "calculateVariance block =
     (if mat_empty block \<or> int (rows block) * int (cols block) \<le> 1 then 0
      else
        let sumSq = (\<lambda>c. \<Sum>p\<leftarrow>pixels block. (real_of_int (val p c) - cv_mean block c)\<^sup>2);
            count = length (pixels block)
        in if count \<le> 1 then 0
           else (sumSq 0 + sumSq 1 + sumSq 2) / (3 * real count))"

definition calculateMAD :: "Mat \<Rightarrow> real" where
  "calculateMAD block =
     (if mat_empty block then 0
      else
        let madSum = (\<lambda>c. \<Sum>p\<leftarrow>pixels block. \<bar>real_of_int (val p c) - cv_mean block c\<bar>);
            count = length (pixels block)
        in if count = 0 then 0
           else (madSum 0 + madSum 1 + madSum 2) / (3 * real count))"

definition pixel_diff :: "Vec3b \<Rightarrow> Vec3b \<Rightarrow> real" where
  "pixel_diff pixel firstPixel =
     real_of_int (\<bar>val pixel 0 - val firstPixel 0\<bar> + \<bar>val pixel 1 - val firstPixel 1\<bar>
                  + \<bar>val pixel 2 - val firstPixel 2\<bar>)"

definition minVal :: "Mat \<Rightarrow> nat \<Rightarrow> uchar" where
  "minVal block c = fold (\<lambda>p m. min m (chan p c)) (pixels block) 255"

definition maxVal :: "Mat \<Rightarrow> nat \<Rightarrow> uchar" where
  "maxVal block c = fold (\<lambda>p m. max m (chan p c)) (pixels block) 0"

definition calculateMaxPixelDiff :: "Mat \<Rightarrow> real" where
  "calculateMaxPixelDiff block =
     (if mat_empty block then 0
      else if int (rows block) * int (cols block) \<le> 4 then
        (let firstPixel = pixel_at block 0 0
         in if int (rows block) * int (cols block) = 1 then 0
            else fold (\<lambda>pixel maxDiff. max maxDiff (pixel_diff pixel firstPixel / 3))
                   (pixels block) 0)
      else
        real_of_int ((uint (maxVal block 0) - uint (minVal block 0))
                   + (uint (maxVal block 1) - uint (minVal block 1))
                   + (uint (maxVal block 2) - uint (minVal block 2))) / 3)"

text \<open>
  The 768-bin histogram of the entropy metric: bins 0..255 count channel 0, bins 256..511
  channel 1, bins 512..767 channel 2.
\<close>

definition hist_add :: "Vec3b \<Rightarrow> int list \<Rightarrow> int list" where
  "hist_add pixel hist =
     (let h0 = hist[unat (ch0 pixel) := hist ! unat (ch0 pixel) + 1];
          h1 = h0[256 + unat (ch1 pixel) := h0 ! (256 + unat (ch1 pixel)) + 1]
      in h1[512 + unat (ch2 pixel) := h1 ! (512 + unat (ch2 pixel)) + 1])"

definition histogram :: "Mat \<Rightarrow> int list" where
  "histogram block = fold hist_add (pixels block) (replicate 768 0)"

definition entropy_step :: "nat \<Rightarrow> int \<Rightarrow> real \<times> real \<Rightarrow> real \<times> real" where
  "entropy_step sampleCount h ec =
     (if h > 0 then
        (let p = real_of_int h / real sampleCount
         in (fst ec - p * log 2 p, snd ec + 1))
      else ec)"

definition calculateEntropy :: "Mat \<Rightarrow> real" where
  "calculateEntropy block =
     (if mat_empty block \<or> int (rows block) * int (cols block) < 16 then
        calculateMaxPixelDiff block / 255
      else
        let hist = histogram block;
            sampleCount = length (pixels block)
        in if sampleCount = 0 then 0
           else
             let ec = fold (entropy_step sampleCount) hist (0, 0);
                 entropy = (if snd ec > 0 then fst ec / 3 else fst ec)
             in min entropy 5)"

definition ssim_channel :: "Mat \<Rightarrow> Mat \<Rightarrow> nat \<Rightarrow> real" where
  "ssim_channel block avgBlock c =
     (let C1 = (0.01 * 255)\<^sup>2;
          C2 = (0.03 * 255)\<^sup>2;
          ps = zip (pixels block)
                 (concat (map (\<lambda>i. map (\<lambda>j. pixel_at avgBlock (int i) (int j))
                                   [0..<cols block]) [0..<rows block]));
          N = length ps
      in if N = 0 then 0
         else
           let mu1 = (\<Sum>pq\<leftarrow>ps. real_of_int (val (fst pq) c)) / real N;
               mu2 = (\<Sum>pq\<leftarrow>ps. real_of_int (val (snd pq) c)) / real N;
               sigma1_sq = (\<Sum>pq\<leftarrow>ps. (real_of_int (val (fst pq) c) - mu1)\<^sup>2)
                             / (real N - 1);
               sigma2_sq = (\<Sum>pq\<leftarrow>ps. (real_of_int (val (snd pq) c) - mu2)\<^sup>2)
                             / (real N - 1);
               sigma12 = (\<Sum>pq\<leftarrow>ps. (real_of_int (val (fst pq) c) - mu1)
                                       * (real_of_int (val (snd pq) c) - mu2))
                             / (real N - 1);
               numerator = (2 * mu1 * mu2 + C1) * (2 * sigma12 + C2);
               denominator = (mu1 * mu1 + mu2 * mu2 + C1) * (sigma1_sq + sigma2_sq + C2);
               ssim = (if denominator > 0.001 then numerator / denominator else 0.99)
           in max 0 (min 1 (1 - ssim)))"

definition calculateSSIM :: "Mat \<Rightarrow> Mat \<Rightarrow> real" where
  "calculateSSIM block avgBlock =
     (if mat_empty block \<or> mat_empty avgBlock then 0
      else if rows block < 4 \<or> cols block < 4 then calculateVariance block / 1000
      else
        (0.299 * ssim_channel block avgBlock 2 + 0.587 * ssim_channel block avgBlock 1
           + 0.114 * ssim_channel block avgBlock 0) * 0.5)"

text \<open>
  \<open>calculateError\<close> reads the selected method and the minimum block size from the
  \<open>Quadtree\<close> object; here they are arguments. The reference block is optional in the
  source (an empty raster by default).
\<close>

definition calculateError :: "ErrorMethod \<Rightarrow> int \<Rightarrow> Mat \<Rightarrow> Mat \<Rightarrow> real" where
  "calculateError errorMethod minBlockSize block avgBlock =
     (if mat_empty block \<or> (rows block = 1 \<and> cols block = 1) then 0
      else if int (rows block) * int (cols block) \<le> 9 \<and> minBlockSize = 2
              \<and> (errorMethod = VARIANCE \<or> errorMethod = MAD \<or> errorMethod = ENTROPY)
        then calculateMaxPixelDiff block * 0.5
      else
        (case errorMethod of
           VARIANCE \<Rightarrow> calculateVariance block
         | MAD \<Rightarrow> calculateMAD block
         | MAX_PIXEL_DIFF \<Rightarrow> calculateMaxPixelDiff block
         | ENTROPY \<Rightarrow> calculateEntropy block
         | SSIM \<Rightarrow>
             (if mat_empty avgBlock then
                calculateSSIM block
                  \<lparr> cols = cols block, rows = rows block,
                    pixel_at = (\<lambda>i j. Vec3b (saturate_uchar (cv_mean block 0))
                                          (saturate_uchar (cv_mean block 1))
                                          (saturate_uchar (cv_mean block 2))) \<rparr>
              else calculateSSIM block avgBlock)))"

section \<open>Quadtree nodes\<close>

text \<open>
  A node is a rectangle, a representative colour, four child pointers (null or owned) and
  the leaf flag. The constructor makes a leaf without children, coloured neutral grey.
\<close>

datatype QuadtreeNode =
  Node (node_x: int) (node_y: int) (node_width: int) (node_height: int)
       (avgColor: Vec3b) (children: "QuadtreeNode option list") (isLeaf: bool)

definition new_QuadtreeNode :: "int \<Rightarrow> int \<Rightarrow> int \<Rightarrow> int \<Rightarrow> QuadtreeNode" where
  "new_QuadtreeNode x y w h =
     Node x y w h (Vec3b 128 128 128) [None, None, None, None] True"

definition set_avgColor :: "Vec3b \<Rightarrow> QuadtreeNode \<Rightarrow> QuadtreeNode" where
  "set_avgColor c n =
     Node (node_x n) (node_y n) (node_width n) (node_height n) c (children n) (isLeaf n)"

definition set_isLeaf :: "bool \<Rightarrow> QuadtreeNode \<Rightarrow> QuadtreeNode" where
  "set_isLeaf b n =
     Node (node_x n) (node_y n) (node_width n) (node_height n) (avgColor n) (children n) b"

definition set_children :: "QuadtreeNode option list \<Rightarrow> QuadtreeNode \<Rightarrow> QuadtreeNode" where
  "set_children cs n =
     Node (node_x n) (node_y n) (node_width n) (node_height n) (avgColor n) cs (isLeaf n)"

text \<open>\<open>static_cast<uchar>\<close> of a double in the byte range drops the fraction.\<close>

definition uchar_cast :: "real \<Rightarrow> uchar" where
  "uchar_cast r = word_of_int \<lfloor>r\<rfloor>"

definition calculateAverageColor :: "Mat \<Rightarrow> QuadtreeNode \<Rightarrow> Vec3b" where
  "calculateAverageColor img n =
     (let endX = min (node_x n + node_width n) (int (cols img));
          endY = min (node_y n + node_height n) (int (rows img));
          startX = max 0 (node_x n);
          startY = max 0 (node_y n)
      in if startX \<ge> endX \<or> startY \<ge> endY \<or> startX \<ge> int (cols img)
            \<or> startY \<ge> int (rows img)
         then Vec3b 128 128 128
         else
           let ps = concat (map (\<lambda>py. map (\<lambda>px. pixel_at img py px)
                                    (filter (\<lambda>px. \<not> (px < 0 \<or> px \<ge> int (cols img)
                                                      \<or> py < 0 \<or> py \<ge> int (rows img)))
                                       [startX..endX - 1]))
                              [startY..endY - 1]);
               count = length ps;
               sum = (\<lambda>c. \<Sum>p\<leftarrow>ps. real_of_int (val p c))
           in if count > 0
              then Vec3b (uchar_cast (sum 0 / real count)) (uchar_cast (sum 1 / real count))
                         (uchar_cast (sum 2 / real count))
              else Vec3b 200 200 200)"

section \<open>The quadtree object\<close>

text \<open>
  The fields of the \<open>Quadtree\<close> object that the recursive splitter only reads are the record
  \<open>Quadtree\<close>; those it writes while building (the shared node counter, the timeout flag and
  the two mode flags) are the record \<open>BuildState\<close>, passed through every call. The watchdog
  thread that raises the timeout flag after 600 ms is not part of the model: inside a build
  the flag keeps the value it was entered with. Frame capture for the animation does not
  touch the tree and is left out.
\<close>

record Quadtree =
  threshold :: real
  minBlockSize :: int
  errorMethod :: ErrorMethod
  targetCompressionPct :: real
  maxDepth :: int
  centerRegion :: Rect
  centerMinBlockSize :: int
  centerMaxDepth :: int
  outerMinBlockSize :: int
  outerMaxDepth :: int

record BuildState =
  nodeCounter :: int
  timeoutFlag :: bool
  forceLowCompression :: bool
  useHybridCompression :: bool

definition new_Quadtree :: "real \<Rightarrow> int \<Rightarrow> ErrorMethod \<Rightarrow> real \<Rightarrow> Quadtree" where
  "new_Quadtree thr mbs method target =
     \<lparr> threshold = thr, minBlockSize = mbs, errorMethod = method,
       targetCompressionPct = target, maxDepth = 10,
       centerRegion = \<lparr> rect_x = 0, rect_y = 0, rect_width = 0, rect_height = 0 \<rparr>,
       centerMinBlockSize = 2, centerMaxDepth = 10,
       outerMinBlockSize = 16, outerMaxDepth = 4 \<rparr>"

definition new_BuildState :: BuildState where
  "new_BuildState =
     \<lparr> nodeCounter = 0, timeoutFlag = False, forceLowCompression = False,
       useHybridCompression = False \<rparr>"

definition MAX_NODES :: int where
  "MAX_NODES = 150000"

text \<open>OpenCV's rectangle intersection \<open>a & b\<close> and \<open>Rect::area\<close>.\<close>

definition rect_inter :: "Rect \<Rightarrow> Rect \<Rightarrow> Rect" where
  "rect_inter a b =
     (let x1 = max (rect_x a) (rect_x b);
          y1 = max (rect_y a) (rect_y b);
          w = min (rect_x a + rect_width a) (rect_x b + rect_width b) - x1;
          h = min (rect_y a + rect_height a) (rect_y b + rect_height b) - y1
      in if w \<le> 0 \<or> h \<le> 0
         then \<lparr> rect_x = 0, rect_y = 0, rect_width = 0, rect_height = 0 \<rparr>
         else \<lparr> rect_x = x1, rect_y = y1, rect_width = w, rect_height = h \<rparr>)"

definition rect_area :: "Rect \<Rightarrow> int" where
  "rect_area r = rect_width r * rect_height r"

definition empty_Mat :: Mat where
  "empty_Mat = \<lparr> cols = 0, rows = 0, pixel_at = (\<lambda>i j. Vec3b 0 0 0) \<rparr>"

definition fill_Mat :: "Mat \<Rightarrow> Vec3b \<Rightarrow> Mat" where
  "fill_Mat block c = \<lparr> cols = cols block, rows = rows block, pixel_at = (\<lambda>i j. c) \<rparr>"

section \<open>The recursive splitter\<close>

text \<open>
  The loop over the four children: child \<open>i\<close> is processed by \<open>f\<close>; where the source
  tests the timeout flag after child \<open>i\<close> (\<open>brk i\<close>) and finds it set, the remaining
  children stay as constructed.
\<close>

fun forChildren ::
  "(nat \<Rightarrow> bool) \<Rightarrow> (BuildState \<Rightarrow> QuadtreeNode option \<Rightarrow> QuadtreeNode option \<times> BuildState)
     \<Rightarrow> nat \<Rightarrow> QuadtreeNode option list \<Rightarrow> BuildState
     \<Rightarrow> QuadtreeNode option list \<times> BuildState" where
  "forChildren brk f i [] st = ([], st)"
| "forChildren brk f i (c # cs) st =
     (case f st c of (c', st') \<Rightarrow>
        if brk i \<and> timeoutFlag st' then (c' # cs, st')
        else (case forChildren brk f (Suc i) cs st' of (cs', st'') \<Rightarrow> (c' # cs', st'')))"

lemma forChildren_cong [fundef_cong]:
  assumes "brk = brk'" "i = i'" "cs = cs'" "st = st'"
    and "\<And>s c. c \<in> set cs' \<Longrightarrow> f s c = g s c"
  shows "forChildren brk f i cs st = forChildren brk' g i' cs' st'"
  using assms(5) unfolding assms(1-4)
  by (induction cs' arbitrary: i' st') (auto split: prod.splits)

definition leaf_with_color :: "Mat \<Rightarrow> QuadtreeNode \<Rightarrow> QuadtreeNode" where
  "leaf_with_color img n = set_isLeaf True (set_avgColor (calculateAverageColor img n) n)"

definition clamped_rect :: "Mat \<Rightarrow> QuadtreeNode \<Rightarrow> Rect" where
  "clamped_rect img n =
     (let endX = min (node_x n + node_width n) (int (cols img));
          endY = min (node_y n + node_height n) (int (rows img));
          startX = max 0 (node_x n);
          startY = max 0 (node_y n)
      in \<lparr> rect_x = startX, rect_y = startY, rect_width = endX - startX,
           rect_height = endY - startY \<rparr>)"

definition make_children :: "QuadtreeNode \<Rightarrow> int \<Rightarrow> int \<Rightarrow> int \<Rightarrow> int
    \<Rightarrow> QuadtreeNode option list" where
  "make_children n halfWidth halfHeight restWidth restHeight =
     [Some (new_QuadtreeNode (node_x n) (node_y n) halfWidth halfHeight),
      Some (new_QuadtreeNode (node_x n + halfWidth) (node_y n) restWidth halfHeight),
      Some (new_QuadtreeNode (node_x n) (node_y n + halfHeight) halfWidth restHeight),
      Some (new_QuadtreeNode (node_x n + halfWidth) (node_y n + halfHeight)
              restWidth restHeight)]"

definition reset_modes :: "Quadtree \<Rightarrow> BuildState \<Rightarrow> BuildState" where
  "reset_modes q st =
     (if (useHybridCompression st \<or> forceLowCompression st) \<and> targetCompressionPct q \<le> 0
      then st\<lparr> useHybridCompression := False, forceLowCompression := False \<rparr>
      else st)"

definition block_error :: "Quadtree \<Rightarrow> Mat \<Rightarrow> Vec3b \<Rightarrow> real" where
  "block_error q block color =
     (if errorMethod q = SSIM
      then calculateError (errorMethod q) (minBlockSize q) block (fill_Mat block color)
      else calculateError (errorMethod q) (minBlockSize q) block empty_Mat)"

function quadtreeCompress ::
  "Quadtree \<Rightarrow> Mat \<Rightarrow> BuildState \<Rightarrow> QuadtreeNode option \<Rightarrow> int
     \<Rightarrow> QuadtreeNode option \<times> BuildState" where
  "quadtreeCompress q img st None depth = (None, st)"
| "quadtreeCompress q img st (Some node) depth =
     (if timeoutFlag st \<or> nodeCounter st > MAX_NODES then (Some node, st)
      else if node_x node < 0 \<or> node_y node < 0 \<or> node_x node \<ge> int (cols img)
              \<or> node_y node \<ge> int (rows img)
        then (Some (set_isLeaf True node), st)
      else
        let st1 = reset_modes q st;
            rect = clamped_rect img node;
            block = roi img rect;
            colored = set_avgColor (calculateAverageColor img node) node;
            split = st1\<lparr> nodeCounter := nodeCounter st1 + 4 \<rparr>
        in
        if useHybridCompression st1 \<and> targetCompressionPct q > 0 then
          (let isInCenterRegion =
                 (rect_area (rect_inter \<lparr> rect_x = node_x node, rect_y = node_y node,
                     rect_width = node_width node, rect_height = node_height node \<rparr>
                     (centerRegion q)) > 0);
               currentMaxDepth = (if isInCenterRegion then centerMaxDepth q
                                  else outerMaxDepth q);
               currentMinBlockSize = (if isInCenterRegion then centerMinBlockSize q
                                      else outerMinBlockSize q)
           in if depth > currentMaxDepth \<or> node_width node \<le> currentMinBlockSize
                 \<or> node_height node \<le> currentMinBlockSize
              then (Some (leaf_with_color img node), st1)
              else
                let halfWidth = max 1 (cdiv (node_width node) 2);
                    halfHeight = max 1 (cdiv (node_height node) 2)
                in case forChildren (\<lambda>i. True)
                          (\<lambda>s c. quadtreeCompress q img s c (depth + 1)) 0
                          (make_children node halfWidth halfHeight
                             (node_width node - halfWidth) (node_height node - halfHeight))
                          split
                   of (cs, st2) \<Rightarrow> (Some (set_children cs (set_isLeaf False node)), st2))
        else if forceLowCompression st1 \<and> targetCompressionPct q > 0 then
          (if node_width node \<le> minBlockSize q \<or> node_height node \<le> minBlockSize q
              \<or> depth \<ge> maxDepth q
           then (Some (leaf_with_color img node), st1)
           else
             let halfWidth = max 1 (cdiv (node_width node) 2);
                 halfHeight = max 1 (cdiv (node_height node) 2)
             in case forChildren (\<lambda>i. True)
                       (\<lambda>s c. quadtreeCompress q img s c (depth + 1)) 0
                       (make_children node halfWidth halfHeight
                          (node_width node - halfWidth) (node_height node - halfHeight))
                       split
                of (cs, st2) \<Rightarrow> (Some (set_children cs (set_isLeaf False node)), st2))
        else if minBlockSize q = 2 then
          (if depth > maxDepth q then (Some (leaf_with_color img node), st1)
           else if node_width node < 4 \<or> node_height node < 4
             then (Some (leaf_with_color img node), st1)
           else if node_x node \<ge> int (cols img) \<or> node_y node \<ge> int (rows img)
             then (Some (set_isLeaf True node), st1)
           else if rect_x rect \<ge> rect_x rect + rect_width rect
                   \<or> rect_y rect \<ge> rect_y rect + rect_height rect
             then (Some (set_isLeaf True node), st1)
           else if rect_width rect \<le> 0 \<or> rect_height rect \<le> 0
                   \<or> rect_x rect + rect_width rect > int (cols img)
                   \<or> rect_y rect + rect_height rect > int (rows img)
             then (Some (set_isLeaf True node), st1)
           else
             let error = (if rect_width rect * rect_height rect \<le> 16
                          then calculateMaxPixelDiff block * 0.5
                          else block_error q block (avgColor colored));
                 adjusted_threshold = (if rect_width rect * rect_height rect \<le> 36
                                       then threshold q * 1.5 else threshold q)
             in if error < adjusted_threshold then (Some (set_isLeaf True colored), st1)
                else
                  let halfWidth = max 2 (cdiv (node_width node) 2);
                      halfHeight = max 2 (cdiv (node_height node) 2)
                  in if halfWidth < 2 \<or> halfHeight < 2
                     then (Some (set_isLeaf True colored), st1)
                     else
                       case forChildren (\<lambda>i. True)
                              (\<lambda>s c. quadtreeCompress q img s c (depth + 1)) 0
                              (make_children colored halfWidth halfHeight
                                 (max 2 (node_width node - halfWidth))
                                 (max 2 (node_height node - halfHeight)))
                              split
                       of (cs, st2) \<Rightarrow>
                            (Some (set_children cs (set_isLeaf False colored)), st2))
        else
          (if depth > maxDepth q \<or> node_width node \<le> minBlockSize q
              \<or> node_height node \<le> minBlockSize q
           then (Some (leaf_with_color img node), st1)
           else if node_x node \<ge> int (cols img) \<or> node_y node \<ge> int (rows img)
             then (Some (set_isLeaf True node), st1)
           else if rect_x rect \<ge> rect_x rect + rect_width rect
                   \<or> rect_y rect \<ge> rect_y rect + rect_height rect
             then (Some (set_isLeaf True node), st1)
           else if rect_width rect \<le> 0 \<or> rect_height rect \<le> 0
                   \<or> rect_x rect + rect_width rect > int (cols img)
                   \<or> rect_y rect + rect_height rect > int (rows img)
             then (Some (set_isLeaf True node), st1)
           else if block_error q block (avgColor colored) < threshold q
             then (Some (set_isLeaf True colored), st1)
           else
             let halfWidth = max 1 (cdiv (node_width node) 2);
                 halfHeight = max 1 (cdiv (node_height node) 2);
                 useParallel = (int (cols img) * int (rows img) > 500000 \<and> depth \<le> 1)
             in case forChildren (\<lambda>i. \<not> useParallel \<and> i mod 2 = 1)
                       (\<lambda>s c. quadtreeCompress q img s c (depth + 1)) 0
                       (make_children colored halfWidth halfHeight
                          (node_width node - halfWidth) (node_height node - halfHeight))
                       split
                of (cs, st2) \<Rightarrow> (Some (set_children cs (set_isLeaf False colored)), st2)))"
  by pat_completeness auto
termination
  by (relation "measure (\<lambda>(q, img, st, n, depth).
        nat (max (maxDepth q) (max (centerMaxDepth q) (outerMaxDepth q)) + 1 - depth))")
     (auto split: if_splits)

section \<open>Building the tree\<close>

text \<open>
  The tree-building part of \<open>compressImage\<close>. For a source of more than 500000 pixels the
  root is split without consulting the metric and its four quadrants are handed to four
  asynchronous tasks; the model runs the four tasks one after the other in index order,
  which is one of the schedules the source admits. The same holds for the four tasks that
  \<open>quadtreeCompress\<close> starts at depth 0 and 1 of such an image.
\<close>

definition build_tree :: "Quadtree \<Rightarrow> BuildState \<Rightarrow> Mat \<Rightarrow> QuadtreeNode option \<times> BuildState" where
  "build_tree q st sourceImage =
     (let root = new_QuadtreeNode 0 0 (int (cols sourceImage)) (int (rows sourceImage));
          useParallel = (int (rows sourceImage) * int (cols sourceImage) > 500000)
      in if useParallel then
           (let halfWidth = max 1 (cdiv (int (cols sourceImage)) 2);
                halfHeight = max 1 (cdiv (int (rows sourceImage)) 2)
            in case forChildren (\<lambda>i. False)
                      (\<lambda>s c. quadtreeCompress q sourceImage s c 1) 0
                      (make_children root halfWidth halfHeight
                         (int (cols sourceImage) - halfWidth)
                         (int (rows sourceImage) - halfHeight))
                      st
               of (cs, st') \<Rightarrow> (Some (set_children cs (set_isLeaf False root)), st'))
         else quadtreeCompress q sourceImage st (Some root) 0)"

section \<open>Tree metrics\<close>

fun countLeafNodes :: "QuadtreeNode option \<Rightarrow> int" where
  "countLeafNodes None = 0"
| "countLeafNodes (Some (Node x y w h c cs l)) =
     (if l then 1 else fold (\<lambda>k count. count + countLeafNodes k) cs 0)"



text \<open>The structural compression percentage: \<open>(1 - leafNodes / totalPixels) * 100\<close>.\<close>

definition leaf_compression_pct :: "QuadtreeNode option \<Rightarrow> Mat \<Rightarrow> real" where
  "leaf_compression_pct tree img =
     (1 - real_of_int (countLeafNodes tree) / real_of_int (int (rows img) * int (cols img)))
       * 100"

section \<open>Adaptive threshold search\<close>

text \<open>
  A trial of the search builds a temporary \<open>Quadtree\<close> on the test image with the candidate
  threshold and target 0 and calls its \<open>compressImage\<close>, which for target 0 resets the
  build state and the depth limit and builds the tree.
\<close>

definition trial_pct :: "Quadtree \<Rightarrow> Mat \<Rightarrow> real \<Rightarrow> real" where
  "trial_pct q testImage t =
     leaf_compression_pct
       (fst (build_tree ((new_Quadtree t (minBlockSize q) (errorMethod q) 0)\<lparr> maxDepth := 10 \<rparr>)
               new_BuildState testImage))
       testImage"

text \<open>\<open>static_cast<int>\<close> of a double drops the fraction (towards zero).\<close>

definition int_cast :: "real \<Rightarrow> int" where
  "int_cast r = (if r \<ge> 0 then \<lfloor>r\<rfloor> else \<lceil>r\<rceil>)"

text \<open>\<open>while (powerOf2 * 2 <= gridSize) powerOf2 *= 2\<close>, entered with \<open>powerOf2 = 1\<close>.\<close>

function powerOf2_loop :: "nat \<Rightarrow> int \<Rightarrow> nat" where
  "powerOf2_loop powerOf2 gridSize =
     (if 0 < powerOf2 \<and> int powerOf2 * 2 \<le> gridSize
      then powerOf2_loop (powerOf2 * 2) gridSize else powerOf2)"
  by pat_completeness auto
termination
  by (relation "measure (\<lambda>(p, g). nat (g + 1) - p)") auto

text \<open>The lines the search prints for the thresholds it tries.\<close>

datatype event = Testing nat real | FineTuning real

record search =
  low :: real
  high :: real
  currentPct :: real
  bestThreshold :: real
  bestDifference :: real
  cur_threshold :: real
  events :: "event list"

definition DBL_MAX :: real where
  "DBL_MAX = (2 - 1 / 2 ^ 52) * 2 ^ 1023"

definition maxIterations :: nat where
  "maxIterations = 7"

definition tolerance :: real where
  "tolerance = 3"

definition note_best :: "real \<Rightarrow> real \<Rightarrow> search \<Rightarrow> search" where
  "note_best t difference s =
     (if difference < bestDifference s
      then s\<lparr> bestThreshold := t, bestDifference := difference \<rparr> else s)"

definition move_bound :: "real \<Rightarrow> real \<Rightarrow> search \<Rightarrow> search" where
  "move_bound targetPct t s =
     (if currentPct s < targetPct then s\<lparr> low := t \<rparr> else s\<lparr> high := t \<rparr>)"

function search_loop :: "(real \<Rightarrow> real) \<Rightarrow> real \<Rightarrow> nat \<Rightarrow> search \<Rightarrow> search" where
  "search_loop trial targetPct iter s =
     (if iter < maxIterations then
        (let weight = (if iter > 0
                       then (if currentPct s < targetPct then 0.7 else 0.3) else 0.5);
             t = low s + (high s - low s) * weight;
             s1 = s\<lparr> cur_threshold := t \<rparr>
         in if \<bar>t - bestThreshold s1\<bar> < 0.001 * bestThreshold s1 then s1
            else
              let s2 = s1\<lparr> events := events s1 @ [Testing (iter + 1) t] \<rparr>;
                  s3 = s2\<lparr> currentPct := trial t \<rparr>;
                  s4 = note_best t \<bar>currentPct s3 - targetPct\<bar> s3
              in if \<bar>currentPct s4 - targetPct\<bar> \<le> tolerance then s4
                 else
                   let s5 = move_bound targetPct t s4
                   in if high s5 - low s5 < 0.001 * low s5 then s5
                      else search_loop trial targetPct (iter + 1) s5)
      else s)"
  by pat_completeness auto
termination
  by (relation "measure (\<lambda>(trial, targetPct, iter, s). maxIterations - iter)") auto

text \<open>
  The final extrapolation. The source divides by the last measured percentage; when that
  is zero the IEEE quotient is infinite and the clamp yields its upper end (its lower end
  for a negative best threshold), which the model writes out.
\<close>

definition clamp_threshold :: "search \<Rightarrow> real \<Rightarrow> real" where
  "clamp_threshold s e = max (low s) (min (high s * 1.2) e)"

definition extrapolatedThreshold :: "real \<Rightarrow> search \<Rightarrow> real" where
  "extrapolatedThreshold targetPct s =
     (if currentPct s < targetPct then
        (if currentPct s = 0
         then (if bestThreshold s < 0 then low s else max (low s) (high s * 1.2))
         else clamp_threshold s (bestThreshold s * (targetPct / currentPct s)))
      else clamp_threshold s (bestThreshold s * (currentPct s / targetPct)))"

definition fine_tune :: "(real \<Rightarrow> real) \<Rightarrow> real \<Rightarrow> search \<Rightarrow> search" where
  "fine_tune trial targetPct s =
     (if bestDifference s > tolerance then
        (let e = extrapolatedThreshold targetPct s;
             s1 = s\<lparr> events := events s @ [FineTuning e] \<rparr>
         in note_best e \<bar>trial e - targetPct\<bar> s1)
      else s)"

definition search_high :: "ErrorMethod \<Rightarrow> real \<Rightarrow> real" where
  "search_high method targetPct =
     (if targetPct < 85 then
        (case method of VARIANCE \<Rightarrow> 50 | MAD \<Rightarrow> 15 | MAX_PIXEL_DIFF \<Rightarrow> 30
         | ENTROPY \<Rightarrow> 1 | SSIM \<Rightarrow> 0.15)
      else if targetPct < 95 then
        (case method of VARIANCE \<Rightarrow> 200 | MAD \<Rightarrow> 30 | MAX_PIXEL_DIFF \<Rightarrow> 75
         | ENTROPY \<Rightarrow> 2.5 | SSIM \<Rightarrow> 0.3)
      else
        (case method of VARIANCE \<Rightarrow> 500 | MAD \<Rightarrow> 50 | MAX_PIXEL_DIFF \<Rightarrow> 150
         | ENTROPY \<Rightarrow> 5 | SSIM \<Rightarrow> 0.5))"

text \<open>The adaptive regime (target of 75 percent and more), for a given trial function.\<close>

definition adaptive_search :: "(real \<Rightarrow> real) \<Rightarrow> ErrorMethod \<Rightarrow> real \<Rightarrow> real \<Rightarrow> search" where
  "adaptive_search trial method targetPct thr =
     (let s0 = \<lparr> low = 0.0001, high = search_high method targetPct, currentPct = trial thr,
                 bestThreshold = thr, bestDifference = DBL_MAX, cur_threshold = thr,
                 events = [] \<rparr>;
          s1 = note_best thr \<bar>currentPct s0 - targetPct\<bar> s0
      in if \<bar>currentPct s1 - targetPct\<bar> \<le> tolerance then s1
         else
           let s2 = move_bound targetPct thr s1;
               s3 = search_loop trial targetPct 0 s2;
               s4 = fine_tune trial targetPct s3
           in s4\<lparr> cur_threshold := bestThreshold s4 \<rparr>)"

definition low_threshold :: "ErrorMethod \<Rightarrow> real" where
  "low_threshold method =
     (case method of VARIANCE \<Rightarrow> 5 | MAD \<Rightarrow> 2 | MAX_PIXEL_DIFF \<Rightarrow> 5 | ENTROPY \<Rightarrow> 0.1
      | SSIM \<Rightarrow> 0.01)"

text \<open>
  \<open>adjustThresholdForTargetCompression\<close>: it rewrites fields of the object and returns the
  lines of the adaptive search. \<open>resize\<close> stands for OpenCV's half-scale \<open>resize\<close>
  (\<open>INTER_AREA\<close>), used for images of more than 1000000 pixels.
\<close>

definition adjustThresholdForTargetCompression ::
  "(Mat \<Rightarrow> Mat) \<Rightarrow> Quadtree \<Rightarrow> BuildState \<Rightarrow> Mat \<Rightarrow> Quadtree \<times> BuildState \<times> event list" where
  "adjustThresholdForTargetCompression resize q st img =
     (let targetPct = targetCompressionPct q;
          icols = int (cols img);
          irows = int (rows img)
      in if targetPct \<le> 0 then (q, st, [])
         else if targetPct < 20 then
           (let gridSize = int_cast (sqrt (real_of_int (icols * irows) * (1 - targetPct / 100)));
                powerOf2 = int (powerOf2_loop 1 gridSize)
            in (q\<lparr> threshold := low_threshold (errorMethod q),
                   minBlockSize := max 2 powerOf2 \<rparr>, st, []))
         else if targetPct < 75 then
           (let totalPixels = irows * icols;
                targetNodeRatio = 1 - targetPct / 100;
                targetLeafNodes = max 1 (int_cast (real_of_int totalPixels * targetNodeRatio));
                avgBlockArea = real_of_int totalPixels / real_of_int targetLeafNodes;
                gridSize = int_cast (sqrt avgBlockArea);
                powerOf2 = int (powerOf2_loop 1 gridSize);
                newMaxDepth = int_cast (log 2 (real_of_int (cdiv (max icols irows) powerOf2))) + 1;
                q1 = q\<lparr> minBlockSize := powerOf2, maxDepth := newMaxDepth \<rparr>;
                st1 = st\<lparr> forceLowCompression := True \<rparr>;
                predictedLeafNodes = cdiv icols powerOf2 * cdiv irows powerOf2;
                predictedCompressionPct =
                  (1 - real_of_int predictedLeafNodes / real_of_int totalPixels) * 100
            in if \<bar>predictedCompressionPct - targetPct\<bar> > 10 then
                 (let centerRatio = (if targetPct < 40 then 0.6
                                     else if targetPct > 60 then 0.3 else 0.4);
                      centerWidth = int_cast (real_of_int icols * centerRatio);
                      centerHeight = int_cast (real_of_int irows * centerRatio)
                  in (q1\<lparr> centerRegion :=
                             \<lparr> rect_x = cdiv (icols - centerWidth) 2,
                               rect_y = cdiv (irows - centerHeight) 2,
                               rect_width = centerWidth, rect_height = centerHeight \<rparr>,
                           centerMinBlockSize := max 2 (cdiv powerOf2 2),
                           centerMaxDepth := 10,
                           outerMinBlockSize := powerOf2 * 2,
                           outerMaxDepth := min 4 (newMaxDepth - 1) \<rparr>,
                      st1\<lparr> useHybridCompression := True \<rparr>, []))
               else (q1, st1, []))
         else
           (let testImage = (if irows * icols > 1000000 then resize img else img);
                s = adaptive_search (trial_pct q testImage) (errorMethod q) targetPct
                      (threshold q)
            in (q\<lparr> threshold := cur_threshold s \<rparr>, st, events s)))"

section \<open>compressImage and reconstructImage\<close>

definition compressImage ::
  "(Mat \<Rightarrow> Mat) \<Rightarrow> Quadtree \<Rightarrow> Mat \<Rightarrow> QuadtreeNode option \<times> Quadtree \<times> BuildState" where
  "compressImage resize q sourceImage =
     (let q1 = q\<lparr> maxDepth := 10 \<rparr>;
          st0 = new_BuildState;
          adjusted =
            (if targetCompressionPct q1 > 0 then
               (if int (rows sourceImage) * int (cols sourceImage) > 1000000
                then adjustThresholdForTargetCompression resize q1 st0 (resize sourceImage)
                else adjustThresholdForTargetCompression resize q1 st0 sourceImage)
             else (q1, st0, []));
          q2 = fst adjusted;
          st1 = fst (snd adjusted)
      in case build_tree q2 st1 sourceImage of (tree, st2) \<Rightarrow> (tree, q2, st2))"

text \<open>OpenCV's filled \<open>rectangle\<close>, \<open>Mat::zeros\<close> and the 3x3 \<open>medianBlur\<close> (each channel
  on its own, the border replicated).\<close>

definition cv_rectangle :: "Mat \<Rightarrow> Rect \<Rightarrow> Vec3b \<Rightarrow> Mat" where
  "cv_rectangle img region color =
     img\<lparr> pixel_at := (\<lambda>i j.
            if rect_y region \<le> i \<and> i < rect_y region + rect_height region
               \<and> rect_x region \<le> j \<and> j < rect_x region + rect_width region
            then color else pixel_at img i j) \<rparr>"








section \<open>Case analysis of the splitter\<close>

text \<open>
  What one call of \<open>quadtreeCompress\<close> does with its node before it recurses: it returns
  at once (\<open>Abort\<close>), makes the node a leaf, or splits it. The decision is the source's
  chain of tests with the recursion taken out; \<open>quadtreeCompress_decide\<close> shows that the
  splitter is this decision followed by the loop over the children.
\<close>


datatype decision =
    Abort
  | Leaf QuadtreeNode BuildState
  | Split "nat \<Rightarrow> bool" QuadtreeNode int int int int BuildState

definition colored :: "Mat \<Rightarrow> QuadtreeNode \<Rightarrow> QuadtreeNode" where
  "colored img node = set_avgColor (calculateAverageColor img node) node"

definition counted :: "BuildState \<Rightarrow> BuildState" where
  "counted st = st\<lparr> nodeCounter := nodeCounter st + 4 \<rparr>"

definition decide_hybrid :: "Quadtree \<Rightarrow> Mat \<Rightarrow> BuildState \<Rightarrow> QuadtreeNode \<Rightarrow> int \<Rightarrow> decision" where
  "decide_hybrid q img st1 node depth =
     (let isInCenterRegion =
            (rect_area (rect_inter \<lparr> rect_x = node_x node, rect_y = node_y node,
                rect_width = node_width node, rect_height = node_height node \<rparr>
                (centerRegion q)) > 0);
          currentMaxDepth = (if isInCenterRegion then centerMaxDepth q else outerMaxDepth q);
          currentMinBlockSize = (if isInCenterRegion then centerMinBlockSize q
                                 else outerMinBlockSize q)
      in if depth > currentMaxDepth \<or> node_width node \<le> currentMinBlockSize
            \<or> node_height node \<le> currentMinBlockSize
         then Leaf (leaf_with_color img node) st1
         else
           let halfWidth = max 1 (cdiv (node_width node) 2);
               halfHeight = max 1 (cdiv (node_height node) 2)
           in Split (\<lambda>i. True) node halfWidth halfHeight
                (node_width node - halfWidth) (node_height node - halfHeight) (counted st1))"

definition decide_grid :: "Quadtree \<Rightarrow> Mat \<Rightarrow> BuildState \<Rightarrow> QuadtreeNode \<Rightarrow> int \<Rightarrow> decision" where
  "decide_grid q img st1 node depth =
     (if node_width node \<le> minBlockSize q \<or> node_height node \<le> minBlockSize q
         \<or> depth \<ge> maxDepth q
      then Leaf (leaf_with_color img node) st1
      else
        let halfWidth = max 1 (cdiv (node_width node) 2);
            halfHeight = max 1 (cdiv (node_height node) 2)
        in Split (\<lambda>i. True) node halfWidth halfHeight
             (node_width node - halfWidth) (node_height node - halfHeight) (counted st1))"

definition decide_small :: "Quadtree \<Rightarrow> Mat \<Rightarrow> BuildState \<Rightarrow> QuadtreeNode \<Rightarrow> int \<Rightarrow> decision" where
  "decide_small q img st1 node depth =
     (let rect = clamped_rect img node; block = roi img rect in
      if depth > maxDepth q then Leaf (leaf_with_color img node) st1
      else if node_width node < 4 \<or> node_height node < 4
        then Leaf (leaf_with_color img node) st1
      else if node_x node \<ge> int (cols img) \<or> node_y node \<ge> int (rows img)
        then Leaf (set_isLeaf True node) st1
      else if rect_x rect \<ge> rect_x rect + rect_width rect
              \<or> rect_y rect \<ge> rect_y rect + rect_height rect
        then Leaf (set_isLeaf True node) st1
      else if rect_width rect \<le> 0 \<or> rect_height rect \<le> 0
              \<or> rect_x rect + rect_width rect > int (cols img)
              \<or> rect_y rect + rect_height rect > int (rows img)
        then Leaf (set_isLeaf True node) st1
      else
        let error = (if rect_width rect * rect_height rect \<le> 16
                     then calculateMaxPixelDiff block * 0.5
                     else block_error q block (avgColor (colored img node)));
            adjusted_threshold = (if rect_width rect * rect_height rect \<le> 36
                                  then threshold q * 1.5 else threshold q)
        in if error < adjusted_threshold then Leaf (set_isLeaf True (colored img node)) st1
           else
             let halfWidth = max 2 (cdiv (node_width node) 2);
                 halfHeight = max 2 (cdiv (node_height node) 2)
             in if halfWidth < 2 \<or> halfHeight < 2
                then Leaf (set_isLeaf True (colored img node)) st1
                else Split (\<lambda>i. True) (colored img node) halfWidth halfHeight
                       (max 2 (node_width node - halfWidth))
                       (max 2 (node_height node - halfHeight)) (counted st1))"

definition decide_metric :: "Quadtree \<Rightarrow> Mat \<Rightarrow> BuildState \<Rightarrow> QuadtreeNode \<Rightarrow> int \<Rightarrow> decision" where
  "decide_metric q img st1 node depth =
     (let rect = clamped_rect img node; block = roi img rect in
      if depth > maxDepth q \<or> node_width node \<le> minBlockSize q
         \<or> node_height node \<le> minBlockSize q
      then Leaf (leaf_with_color img node) st1
      else if node_x node \<ge> int (cols img) \<or> node_y node \<ge> int (rows img)
        then Leaf (set_isLeaf True node) st1
      else if rect_x rect \<ge> rect_x rect + rect_width rect
              \<or> rect_y rect \<ge> rect_y rect + rect_height rect
        then Leaf (set_isLeaf True node) st1
      else if rect_width rect \<le> 0 \<or> rect_height rect \<le> 0
              \<or> rect_x rect + rect_width rect > int (cols img)
              \<or> rect_y rect + rect_height rect > int (rows img)
        then Leaf (set_isLeaf True node) st1
      else if block_error q block (avgColor (colored img node)) < threshold q
        then Leaf (set_isLeaf True (colored img node)) st1
      else
        let halfWidth = max 1 (cdiv (node_width node) 2);
            halfHeight = max 1 (cdiv (node_height node) 2);
            useParallel = (int (cols img) * int (rows img) > 500000 \<and> depth \<le> 1)
        in Split (\<lambda>i. \<not> useParallel \<and> i mod 2 = 1) (colored img node) halfWidth halfHeight
             (node_width node - halfWidth) (node_height node - halfHeight) (counted st1))"

definition decide :: "Quadtree \<Rightarrow> Mat \<Rightarrow> BuildState \<Rightarrow> QuadtreeNode \<Rightarrow> int \<Rightarrow> decision" where
  "decide q img st node depth =
     (if timeoutFlag st \<or> nodeCounter st > MAX_NODES then Abort
      else if node_x node < 0 \<or> node_y node < 0 \<or> node_x node \<ge> int (cols img)
              \<or> node_y node \<ge> int (rows img)
        then Leaf (set_isLeaf True node) st
      else if useHybridCompression (reset_modes q st) \<and> targetCompressionPct q > 0
        then decide_hybrid q img (reset_modes q st) node depth
      else if forceLowCompression (reset_modes q st) \<and> targetCompressionPct q > 0
        then decide_grid q img (reset_modes q st) node depth
      else if minBlockSize q = 2 then decide_small q img (reset_modes q st) node depth
      else decide_metric q img (reset_modes q st) node depth)"

lemma quadtreeCompress_decide:
  "quadtreeCompress q img st (Some node) depth =
     (case decide q img st node depth of
        Abort \<Rightarrow> (Some node, st)
      | Leaf n st' \<Rightarrow> (Some n, st')
      | Split brk base hw hh rw rh st' \<Rightarrow>
          (case forChildren brk (\<lambda>s c. quadtreeCompress q img s c (depth + 1)) 0
                  (make_children base hw hh rw rh) st'
           of (cs, st2) \<Rightarrow> (Some (set_children cs (set_isLeaf False base)), st2)))"
  unfolding decide_def decide_hybrid_def decide_grid_def decide_small_def decide_metric_def
    colored_def counted_def quadtreeCompress.simps(2)[of q img st node depth] Let_def
  by (simp only: if_distrib[of "case_decision _ _ _"] decision.case cong: if_cong)

declare quadtreeCompress.simps(2) [simp del]

definition depth_bound :: "Quadtree \<Rightarrow> int" where
  "depth_bound q = max (maxDepth q) (max (centerMaxDepth q) (outerMaxDepth q))"

definition stop_requested :: "BuildState \<Rightarrow> bool" where
  "stop_requested st = (timeoutFlag st \<or> nodeCounter st > MAX_NODES)"

definition block_sizes_positive :: "Quadtree \<Rightarrow> bool" where
  "block_sizes_positive q =
     (1 \<le> minBlockSize q \<and> 1 \<le> centerMinBlockSize q \<and> 1 \<le> outerMinBlockSize q)"

definition grid_ok :: "Quadtree \<Rightarrow> BuildState \<Rightarrow> bool" where
  "grid_ok q st =
     ((useHybridCompression st \<and> targetCompressionPct q > 0
         \<longrightarrow> 1 \<le> centerMinBlockSize q \<and> 1 \<le> outerMinBlockSize q)
      \<and> (forceLowCompression st \<and> targetCompressionPct q > 0 \<longrightarrow> 1 \<le> minBlockSize q))"

lemma cdiv_two [simp]: "0 \<le> a \<Longrightarrow> cdiv a 2 = a div 2"
  by (cases "a = 0") (simp_all add: cdiv_def)

lemma sel_set_avgColor [simp]:
  "node_x (set_avgColor c n) = node_x n" "node_y (set_avgColor c n) = node_y n"
  "node_width (set_avgColor c n) = node_width n"
  "node_height (set_avgColor c n) = node_height n"
  "avgColor (set_avgColor c n) = c" "children (set_avgColor c n) = children n"
  "isLeaf (set_avgColor c n) = isLeaf n"
  by (simp_all add: set_avgColor_def)

lemma sel_set_isLeaf [simp]:
  "node_x (set_isLeaf b n) = node_x n" "node_y (set_isLeaf b n) = node_y n"
  "node_width (set_isLeaf b n) = node_width n" "node_height (set_isLeaf b n) = node_height n"
  "avgColor (set_isLeaf b n) = avgColor n" "children (set_isLeaf b n) = children n"
  "isLeaf (set_isLeaf b n) = b"
  by (simp_all add: set_isLeaf_def)

lemma sel_set_children [simp]:
  "node_x (set_children cs n) = node_x n" "node_y (set_children cs n) = node_y n"
  "node_width (set_children cs n) = node_width n"
  "node_height (set_children cs n) = node_height n"
  "avgColor (set_children cs n) = avgColor n" "children (set_children cs n) = cs"
  "isLeaf (set_children cs n) = isLeaf n"
  by (simp_all add: set_children_def)

lemma sel_new_QuadtreeNode [simp]:
  "node_x (new_QuadtreeNode x y w h) = x" "node_y (new_QuadtreeNode x y w h) = y"
  "node_width (new_QuadtreeNode x y w h) = w" "node_height (new_QuadtreeNode x y w h) = h"
  "avgColor (new_QuadtreeNode x y w h) = Vec3b 128 128 128"
  "children (new_QuadtreeNode x y w h) = [None, None, None, None]"
  "isLeaf (new_QuadtreeNode x y w h) = True"
  by (simp_all add: new_QuadtreeNode_def)

lemma sel_colored [simp]:
  "node_x (colored img n) = node_x n" "node_y (colored img n) = node_y n"
  "node_width (colored img n) = node_width n" "node_height (colored img n) = node_height n"
  "avgColor (colored img n) = calculateAverageColor img n"
  "children (colored img n) = children n" "isLeaf (colored img n) = isLeaf n"
  by (simp_all add: colored_def)

lemma sel_counted [simp]:
  "nodeCounter (counted st) = nodeCounter st + 4" "timeoutFlag (counted st) = timeoutFlag st"
  "forceLowCompression (counted st) = forceLowCompression st"
  "useHybridCompression (counted st) = useHybridCompression st"
  by (simp_all add: counted_def)

lemma sel_reset_modes [simp]:
  "nodeCounter (reset_modes q st) = nodeCounter st"
  "timeoutFlag (reset_modes q st) = timeoutFlag st"
  by (simp_all add: reset_modes_def)

lemma reset_modes_flags:
  "useHybridCompression (reset_modes q st) \<Longrightarrow> useHybridCompression st"
  "forceLowCompression (reset_modes q st) \<Longrightarrow> forceLowCompression st"
  by (simp_all add: reset_modes_def split: if_splits)

text \<open>What a decision may be, mode by mode.\<close>

definition leaf_of :: "Mat \<Rightarrow> QuadtreeNode \<Rightarrow> QuadtreeNode \<Rightarrow> bool" where
  "leaf_of img node n = (n = set_isLeaf True node \<or> n = set_isLeaf True (colored img node))"

definition base_of :: "Mat \<Rightarrow> QuadtreeNode \<Rightarrow> QuadtreeNode \<Rightarrow> bool" where
  "base_of img node b = (b = node \<or> b = colored img node)"

definition cut :: "QuadtreeNode \<Rightarrow> int \<Rightarrow> int \<Rightarrow> int \<Rightarrow> int \<Rightarrow> bool" where
  "cut node hw hh rw rh =
     (hw = max 1 (cdiv (node_width node) 2) \<and> hh = max 1 (cdiv (node_height node) 2)
      \<and> rw = node_width node - hw \<and> rh = node_height node - hh)"

lemma leaf_with_color_eq: "leaf_with_color img node = set_isLeaf True (colored img node)"
  by (simp add: leaf_with_color_def colored_def)

lemma decide_hybrid_Leaf:
  "decide_hybrid q img st1 node d = Leaf n st' \<Longrightarrow> st' = st1 \<and> leaf_of img node n"
  by (auto simp: decide_hybrid_def Let_def leaf_of_def leaf_with_color_eq split: if_splits)

lemma decide_grid_Leaf:
  "decide_grid q img st1 node d = Leaf n st' \<Longrightarrow> st' = st1 \<and> leaf_of img node n"
  by (auto simp: decide_grid_def Let_def leaf_of_def leaf_with_color_eq split: if_splits)

lemma decide_small_Leaf:
  "decide_small q img st1 node d = Leaf n st' \<Longrightarrow> st' = st1 \<and> leaf_of img node n"
  unfolding decide_small_def Let_def leaf_of_def leaf_with_color_eq
  by (simp split: if_splits)

lemma decide_metric_Leaf:
  "decide_metric q img st1 node d = Leaf n st' \<Longrightarrow> st' = st1 \<and> leaf_of img node n"
  unfolding decide_metric_def Let_def leaf_of_def leaf_with_color_eq
  by (simp split: if_splits)

lemma decide_hybrid_Split:
  "decide_hybrid q img st1 node d = Split brk base hw hh rw rh st' \<Longrightarrow>
     st' = counted st1 \<and> base_of img node base \<and> d \<le> depth_bound q
     \<and> cut node hw hh rw rh
     \<and> min (centerMinBlockSize q) (outerMinBlockSize q) < node_width node
     \<and> min (centerMinBlockSize q) (outerMinBlockSize q) < node_height node"
  unfolding decide_hybrid_def Let_def base_of_def depth_bound_def cut_def
  by (auto split: if_splits)

lemma decide_grid_Split:
  "decide_grid q img st1 node d = Split brk base hw hh rw rh st' \<Longrightarrow>
     st' = counted st1 \<and> base_of img node base \<and> d \<le> depth_bound q
     \<and> cut node hw hh rw rh
     \<and> minBlockSize q < node_width node \<and> minBlockSize q < node_height node"
  unfolding decide_grid_def Let_def base_of_def depth_bound_def cut_def
  by (auto split: if_splits)

lemma decide_small_Split:
  "decide_small q img st1 node d = Split brk base hw hh rw rh st' \<Longrightarrow>
     st' = counted st1 \<and> base_of img node base \<and> d \<le> depth_bound q
     \<and> cut node hw hh rw rh \<and> 4 \<le> node_width node \<and> 4 \<le> node_height node"
  unfolding decide_small_def Let_def base_of_def depth_bound_def cut_def
  by (simp split: if_splits)

lemma clamped_rect_sel:
  "rect_x (clamped_rect img n) = max 0 (node_x n)"
  "rect_y (clamped_rect img n) = max 0 (node_y n)"
  "rect_width (clamped_rect img n)
     = min (node_x n + node_width n) (int (cols img)) - max 0 (node_x n)"
  "rect_height (clamped_rect img n)
     = min (node_y n + node_height n) (int (rows img)) - max 0 (node_y n)"
  by (simp_all add: clamped_rect_def Let_def)

lemma decide_metric_Split_raw:
  assumes "decide_metric q img st1 node d = Split brk base hw hh rw rh st'"
  shows "st' = counted st1 \<and> base = colored img node \<and> d \<le> maxDepth q
     \<and> cut node hw hh rw rh
     \<and> minBlockSize q < node_width node \<and> minBlockSize q < node_height node
     \<and> 0 < rect_width (clamped_rect img node) \<and> 0 < rect_height (clamped_rect img node)
     \<and> \<not> block_error q (roi img (clamped_rect img node)) (calculateAverageColor img node)
           < threshold q"
  using assms unfolding decide_metric_def Let_def cut_def
  by (simp split: if_splits)

lemma decide_metric_Split:
  assumes "decide_metric q img st1 node d = Split brk base hw hh rw rh st'"
    and "0 \<le> node_x node" "0 \<le> node_y node"
  shows "st' = counted st1 \<and> base_of img node base \<and> d \<le> depth_bound q
     \<and> cut node hw hh rw rh
     \<and> minBlockSize q < node_width node \<and> minBlockSize q < node_height node
     \<and> 1 \<le> node_width node \<and> 1 \<le> node_height node"
proof -
  note raw = decide_metric_Split_raw[OF assms(1)]
  from raw assms(2) have w: "1 \<le> node_width node"
    by (simp add: clamped_rect_sel)
  from raw assms(3) have h: "1 \<le> node_height node"
    by (simp add: clamped_rect_sel)
  from raw have d: "d \<le> depth_bound q"
    unfolding depth_bound_def by linarith
  from raw w h d show ?thesis by (simp add: base_of_def)
qed

lemma decide_modes_not_Abort [simp]:
  "decide_hybrid q img st1 node d \<noteq> Abort" "decide_grid q img st1 node d \<noteq> Abort"
  "decide_small q img st1 node d \<noteq> Abort" "decide_metric q img st1 node d \<noteq> Abort"
  by (simp_all add: decide_hybrid_def decide_grid_def decide_small_def decide_metric_def
      Let_def)

lemma decide_Abort_iff: "decide q img st node d = Abort \<longleftrightarrow> stop_requested st"
  by (simp add: decide_def stop_requested_def)

lemma decide_Leaf:
  assumes "decide q img st node d = Leaf n st'"
  shows "\<not> stop_requested st \<and> (st' = st \<or> st' = reset_modes q st) \<and> leaf_of img node n"
proof -
  have ns: "\<not> stop_requested st"
    using assms by (auto simp: decide_def stop_requested_def)
  have "(st' = st \<or> st' = reset_modes q st) \<and> leaf_of img node n"
    using assms ns unfolding decide_def stop_requested_def
    by (auto split: if_splits simp: leaf_of_def
        dest: decide_hybrid_Leaf decide_grid_Leaf decide_small_Leaf decide_metric_Leaf)
  with ns show ?thesis by simp
qed

lemma decide_Split_cases [consumes 1, case_names hybrid grid small metric]:
  assumes "decide q img st node d = Split brk base hw hh rw rh st'"
  obtains
    (hybrid) "useHybridCompression st" "targetCompressionPct q > 0"
      "decide_hybrid q img (reset_modes q st) node d = Split brk base hw hh rw rh st'"
  | (grid) "forceLowCompression st" "targetCompressionPct q > 0"
      "decide_grid q img (reset_modes q st) node d = Split brk base hw hh rw rh st'"
  | (small) "minBlockSize q = 2"
      "decide_small q img (reset_modes q st) node d = Split brk base hw hh rw rh st'"
  | (metric) "minBlockSize q \<noteq> 2"
      "decide_metric q img (reset_modes q st) node d = Split brk base hw hh rw rh st'"
  using assms unfolding decide_def
  by (auto split: if_splits dest: reset_modes_flags)

lemma decide_Split:
  assumes "decide q img st node d = Split brk base hw hh rw rh st'"
  shows "\<not> stop_requested st \<and> st' = counted (reset_modes q st) \<and> base_of img node base
     \<and> d \<le> depth_bound q \<and> cut node hw hh rw rh
     \<and> 0 \<le> node_x node \<and> node_x node < int (cols img)
     \<and> 0 \<le> node_y node \<and> node_y node < int (rows img)
     \<and> (grid_ok q st \<longrightarrow> 1 \<le> node_width node \<and> 1 \<le> node_height node)
     \<and> (block_sizes_positive q \<longrightarrow> 2 \<le> node_width node \<and> 2 \<le> node_height node)"
proof -
  have ns: "\<not> stop_requested st"
    using assms by (auto simp: decide_def stop_requested_def)
  have inb: "0 \<le> node_x node \<and> node_x node < int (cols img)
      \<and> 0 \<le> node_y node \<and> node_y node < int (rows img)"
    using assms ns by (auto simp: decide_def stop_requested_def split: if_splits)
  consider
    (hybrid) "useHybridCompression (reset_modes q st)" "targetCompressionPct q > 0"
      "decide_hybrid q img (reset_modes q st) node d = Split brk base hw hh rw rh st'"
  | (grid) "forceLowCompression (reset_modes q st)" "targetCompressionPct q > 0"
      "decide_grid q img (reset_modes q st) node d = Split brk base hw hh rw rh st'"
  | (small) "minBlockSize q = 2"
      "decide_small q img (reset_modes q st) node d = Split brk base hw hh rw rh st'"
  | (metric) "decide_metric q img (reset_modes q st) node d = Split brk base hw hh rw rh st'"
    using assms ns inb unfolding decide_def stop_requested_def
    by (auto split: if_splits)
  then have "st' = counted (reset_modes q st) \<and> base_of img node base
     \<and> d \<le> depth_bound q \<and> cut node hw hh rw rh
     \<and> (grid_ok q st \<longrightarrow> 1 \<le> node_width node \<and> 1 \<le> node_height node)
     \<and> (block_sizes_positive q \<longrightarrow> 2 \<le> node_width node \<and> 2 \<le> node_height node)"
  proof cases
    case hybrid
    from decide_hybrid_Split[OF hybrid(3)] hybrid(1,2) reset_modes_flags(1)[OF hybrid(1)]
    show ?thesis by (auto simp: grid_ok_def block_sizes_positive_def)
  next
    case grid
    from decide_grid_Split[OF grid(3)] grid(1,2) reset_modes_flags(2)[OF grid(1)]
    show ?thesis by (auto simp: grid_ok_def block_sizes_positive_def)
  next
    case small
    from decide_small_Split[OF small(2)] small(1)
    show ?thesis by (auto simp: grid_ok_def block_sizes_positive_def)
  next
    case metric
    from decide_metric_Split[OF metric] inb
    show ?thesis by (auto simp: grid_ok_def block_sizes_positive_def)
  qed
  with ns inb show ?thesis by simp
qed

lemma quadtreeCompress_induct [case_names Null Node]:
  assumes null: "\<And>st d. P st None d"
    and node: "\<And>st node d.
        (\<And>brk base hw hh rw rh st' s c.
            decide q img st node d = Split brk base hw hh rw rh st'
            \<Longrightarrow> c \<in> set (make_children base hw hh rw rh) \<Longrightarrow> P s c (d + 1))
        \<Longrightarrow> P st (Some node) d"
  shows "P st n d"
proof (induction "nat (depth_bound q + 1 - d)" arbitrary: st n d rule: less_induct)
  case less
  show ?case
  proof (cases n)
    case None
    then show ?thesis by (simp add: null)
  next
    case (Some k)
    show ?thesis unfolding Some
    proof (rule node)
      fix brk base hw hh rw rh st' s c
      assume "decide q img st k d = Split brk base hw hh rw rh st'"
      then have "d \<le> depth_bound q" using decide_Split by blast
      then have "nat (depth_bound q + 1 - (d + 1)) < nat (depth_bound q + 1 - d)" by simp
      then show "P s c (d + 1)" by (rule less)
    qed
  qed
qed

section \<open>Rounding in the library mean\<close>

text \<open>
  Rounding keeps every number with a significand of at most 53 bits, and moves any other
  number by at most the fraction \<open>2^-53\<close> of its size.
\<close>

lemma round_half_even_of_int [simp]: "round_half_even (real_of_int z) = z"
  by (simp add: round_half_even_def)


lemma floor_log2_le:
  assumes "m \<noteq> 0" "\<bar>m\<bar> < 2 ^ 53"
  shows "\<lfloor>log 2 \<bar>real_of_int m * 2 powr real_of_int k\<bar>\<rfloor> - 52 \<le> k"
proof -
  have m: "0 < \<bar>real_of_int m\<bar>" using assms(1) by simp
  have "\<bar>real_of_int m\<bar> < 2 ^ 53"
    using assms(2) by (metis of_int_abs of_int_less_numeral_power_cancel_iff)
  then have l: "log 2 \<bar>real_of_int m\<bar> < 53"
    using m by (simp add: log_less_iff)
  have "log 2 \<bar>real_of_int m * 2 powr real_of_int k\<bar>
      = log 2 \<bar>real_of_int m\<bar> + real_of_int k"
    using m by (simp add: abs_mult log_mult)
  also have "\<dots> < real_of_int (53 + k)" using l by simp
  finally have "\<lfloor>log 2 \<bar>real_of_int m * 2 powr real_of_int k\<bar>\<rfloor> < 53 + k"
    by (simp only: floor_less_iff)
  then show ?thesis by simp
qed

lemma round_double_exact:
  assumes "\<bar>m\<bar> < 2 ^ 53"
  shows "round_double (real_of_int m * 2 powr real_of_int k) = real_of_int m * 2 powr real_of_int k"
proof (cases "m = 0")
  case True
  then show ?thesis by (simp add: round_double_def)
next
  case False
  define x where "x = real_of_int m * 2 powr real_of_int k"
  define e where "e = \<lfloor>log 2 \<bar>x\<bar>\<rfloor> - 52"
  have x0: "x \<noteq> 0" using False by (simp add: x_def)
  have le: "e \<le> k" unfolding e_def x_def by (rule floor_log2_le[OF False assms])
  define n where "n = nat (k - e)"
  have k: "real_of_int k = real_of_int e + real n" using le by (simp add: n_def)
  have "x / 2 powr real_of_int e = real_of_int m * 2 powr real n"
    unfolding x_def k by (simp add: powr_add)
  also have "\<dots> = real_of_int (m * 2 ^ n)"
    by (simp add: powr_realpow)
  finally have q: "x / 2 powr real_of_int e = real_of_int (m * 2 ^ n)" .
  have "round_double x
      = real_of_int (round_half_even (x / 2 powr real_of_int e)) * 2 powr real_of_int e"
    using x0 unfolding round_double_def Let_def e_def[symmetric] by simp
  also have "\<dots> = real_of_int (m * 2 ^ n) * 2 powr real_of_int e"
    unfolding q round_half_even_of_int ..
  also have "\<dots> = x"
    unfolding x_def k by (simp add: powr_add powr_realpow)
  finally show ?thesis unfolding x_def .
qed


lemma round_double_of_int:
  "\<bar>m\<bar> < 2 ^ 53 \<Longrightarrow> round_double (real_of_int m) = real_of_int m"
  using round_double_exact[of m 0] by simp

lemma round_double_dyadic:
  assumes "\<bar>m\<bar> < 2 ^ 53"
  shows "round_double (real_of_int m / 2 ^ n) = real_of_int m / 2 ^ n"
proof -
  have "real_of_int m / 2 ^ n = real_of_int m * 2 powr real_of_int (- int n)"
    by (simp add: powr_minus powr_realpow field_simps)
  with round_double_exact[OF assms, of "- int n"] show ?thesis by simp
qed

lemma length_pixels: "length (pixels b) = rows b * cols b"
  by (simp add: pixels_def length_concat sum_list_triv comp_def)

lemma val_bounds: "0 \<le> val p c" "val p c \<le> 255"
  using uint_lt2p[of "chan p c"] by (simp_all add: val_def del: chan.simps)

lemma sum_val_of_int:
  "(\<Sum>p\<leftarrow>ps. real_of_int (val p c)) = real_of_int (\<Sum>p\<leftarrow>ps. val p c)"
  by (induction ps) simp_all

lemma sum_val_bounds:
  "0 \<le> (\<Sum>p\<leftarrow>ps. val p c)" "(\<Sum>p\<leftarrow>ps. val p c) \<le> 255 * int (length ps)"
proof -
  show "0 \<le> (\<Sum>p\<leftarrow>ps. val p c)"
    by (induction ps) (use val_bounds(1) in \<open>simp_all add: add_nonneg_nonneg del: chan.simps\<close>)
  show "(\<Sum>p\<leftarrow>ps. val p c) \<le> 255 * int (length ps)"
  proof (induction ps)
    case Nil
    show ?case by simp
  next
    case (Cons p ps)
    with val_bounds(2)[of p c] show ?case by simp
  qed
qed

text \<open>The mean of a block whose pixel count is a power of two is exact.\<close>

lemma cv_mean_pow2:
  assumes "length (pixels b) = 2 ^ n" and "n \<le> 44"
  shows "cv_mean b c = (\<Sum>p\<leftarrow>pixels b. real_of_int (val p c)) / 2 ^ n"
proof -
  define S where "S = (\<Sum>p\<leftarrow>pixels b. val p c)"
  have ne: "pixels b \<noteq> []" using assms(1) by auto
  have "(2::int) ^ n \<le> 2 ^ 44" using assms(2) by (intro power_increasing) simp_all
  with sum_val_bounds[where ps = "pixels b" and c = c] assms(1) have "0 \<le> S" "S \<le> 255 * 2 ^ 44"
    by (simp_all add: S_def)
  then have S: "\<bar>S\<bar> < 2 ^ 53" by simp
  have r: "round_double (1 / 2 ^ n) = 1 / 2 ^ n"
    using round_double_dyadic[of 1 n] by simp
  have "cv_mean b c = round_double (real_of_int S * round_double (1 / 2 ^ n))"
    using ne by (simp add: cv_mean_def sum_val_of_int S_def assms(1))
  also have "\<dots> = real_of_int S / 2 ^ n"
    unfolding r using round_double_dyadic[OF S, of n] by simp
  finally show ?thesis by (simp add: S_def sum_val_of_int)
qed

section \<open>Degenerate regions\<close>

lemma calculateError_degenerate:
  "mat_empty block \<or> (rows block = 1 \<and> cols block = 1)
     \<Longrightarrow> calculateError method mbs block avgBlock = 0"
  by (simp add: calculateError_def)

lemma block_error_one_pixel:
  assumes "0 \<le> node_x n" "node_x n < int (cols img)" "0 \<le> node_y n"
    "node_y n < int (rows img)" "node_width n = 1" "node_height n = 1"
  shows "block_error q (roi img (clamped_rect img n)) c = 0"
proof -
  have "rows (roi img (clamped_rect img n)) = 1 \<and> cols (roi img (clamped_rect img n)) = 1"
    using assms by (simp add: roi_def clamped_rect_sel)
  then show ?thesis
    by (simp add: block_error_def calculateError_degenerate)
qed

lemma one_pixel_never_split:
  assumes "0 < threshold q" "grid_ok q st" "node_width n = 1" "node_height n = 1"
  shows "decide q img st n d \<noteq> Split brk base hw hh rw rh st'"
proof
  assume sp: "decide q img st n d = Split brk base hw hh rw rh st'"
  note inb = decide_Split[OF sp]
  from sp show False
  proof (cases rule: decide_Split_cases)
    case hybrid
    from decide_hybrid_Split[OF hybrid(3)] hybrid(1,2) assms show False
      by (auto simp: grid_ok_def)
  next
    case grid
    from decide_grid_Split[OF grid(3)] grid(1,2) assms show False
      by (simp add: grid_ok_def)
  next
    case small
    from decide_small_Split[OF small(2)] assms show False by simp
  next
    case metric
    from decide_metric_Split_raw[OF metric(2)] block_error_one_pixel[of n img q] inb assms
    show False by simp
  qed
qed

text \<open>
  C10. Whatever the error method and whatever reference block is supplied,
  \<open>calculateError\<close> is 0 on an empty region and on a region of exactly 1x1 pixels; and
  under a positive threshold the splitter leaves a freshly constructed 1x1 node a leaf
  without children, at any position, depth and build state (in the two grid-driven modes
  the grid sizes are positive, as the target adjustment sets them).
\<close>

theorem calculateError_degenerate_leaf:
  "(mat_empty block \<or> (rows block = 1 \<and> cols block = 1)
      \<longrightarrow> calculateError method mbs block avgBlock = 0)
   \<and> (0 < threshold q \<and> grid_ok q st
      \<longrightarrow> (\<exists>n' st'. quadtreeCompress q img st (Some (new_QuadtreeNode x y 1 1)) d
                       = (Some n', st')
                   \<and> isLeaf n' \<and> children n' = [None, None, None, None]))"
proof (intro conjI impI)
  assume "mat_empty block \<or> (rows block = 1 \<and> cols block = 1)"
  then show "calculateError method mbs block avgBlock = 0"
    by (rule calculateError_degenerate)
next
  assume a: "0 < threshold q \<and> grid_ok q st"
  let ?n = "new_QuadtreeNode x y 1 1"
  show "\<exists>n' st'. quadtreeCompress q img st (Some ?n) d = (Some n', st')
          \<and> isLeaf n' \<and> children n' = [None, None, None, None]"
  proof (cases "decide q img st ?n d")
    case Abort
    then show ?thesis by (simp add: quadtreeCompress_decide)
  next
    case (Leaf n st')
    from decide_Leaf[OF Leaf] show ?thesis
      by (auto simp: quadtreeCompress_decide Leaf leaf_of_def)
  next
    case (Split brk base hw hh rw rh st')
    with one_pixel_never_split[of q st ?n img d brk base hw hh rw rh st'] a
    show ?thesis by simp
  qed
qed

definition checker2 :: Mat where
  "checker2 = \<lparr> cols = 2, rows = 2,
                 pixel_at = (\<lambda>i j. if i = j then Vec3b 0 0 0 else Vec3b 255 255 255) \<rparr>"

theorem calculateError_degenerate_leaf_witness:
  "mat_empty empty_Mat \<and> calculateError ENTROPY 2 empty_Mat checker2 = 0
   \<and> 0 < threshold (new_Quadtree 1 1 VARIANCE 0)
   \<and> grid_ok (new_Quadtree 1 1 VARIANCE 0) new_BuildState
   \<and> (\<exists>n' st'. quadtreeCompress (new_Quadtree 1 1 VARIANCE 0) checker2 new_BuildState
                    (Some (new_QuadtreeNode 1 0 1 1)) 1 = (Some n', st')
               \<and> isLeaf n' \<and> children n' = [None, None, None, None])"
proof -
  have e: "mat_empty empty_Mat" by (simp add: mat_empty_def empty_Mat_def)
  have t: "0 < threshold (new_Quadtree 1 1 VARIANCE 0)
           \<and> grid_ok (new_Quadtree 1 1 VARIANCE 0) new_BuildState"
    by (simp add: new_Quadtree_def new_BuildState_def grid_ok_def)
  from calculateError_degenerate_leaf[of empty_Mat ENTROPY 2 checker2
      "new_Quadtree 1 1 VARIANCE 0" new_BuildState checker2 1 0 1] e t
  show ?thesis by blast
qed

section \<open>Timeout and node cap\<close>

lemma quadtreeCompress_stop:
  "stop_requested st \<Longrightarrow> quadtreeCompress q img st n d = (n, st)"
  by (cases n) (simp_all add: quadtreeCompress_decide decide_def stop_requested_def)

lemma forChildren_stop:
  "stop_requested st
     \<Longrightarrow> forChildren brk (\<lambda>s c. quadtreeCompress q img s c d) i cs st = (cs, st)"
  by (induction cs arbitrary: i) (simp_all add: quadtreeCompress_stop)

definition checker4 :: Mat where
  "checker4 = \<lparr> cols = 4, rows = 4,
                 pixel_at = (\<lambda>i j. if even (i + j) then Vec3b 0 0 0 else Vec3b 255 255 255) \<rparr>"

definition capped :: BuildState where
  "capped = new_BuildState\<lparr> nodeCounter := 150004 \<rparr>"

lemma pixels_2x2:
  "cols b = 2 \<Longrightarrow> rows b = 2
     \<Longrightarrow> pixels b = [pixel_at b 0 0, pixel_at b 0 1, pixel_at b 1 0, pixel_at b 1 1]"
  by (simp add: pixels_def upt_rec[of 0] upt_rec[of 1] upt_rec[of 2] numeral_2_eq_2)

lemma checker4_quadrant_splits:
  "decide (new_Quadtree 1 1 VARIANCE 0) checker4 new_BuildState (new_QuadtreeNode 2 0 2 2) 1
     = Split (\<lambda>i. i mod 2 = 1)
         (colored checker4 (new_QuadtreeNode 2 0 2 2)) 1 1 1 1 (counted new_BuildState)"
proof -
  let ?b = "roi checker4 (clamped_rect checker4 (new_QuadtreeNode 2 0 2 2))"
  have dims: "cols ?b = 2" "rows ?b = 2"
    by (simp_all add: roi_def clamped_rect_sel checker4_def)
  have px: "pixels ?b = [Vec3b 0 0 0, Vec3b 255 255 255, Vec3b 255 255 255, Vec3b 0 0 0]"
    unfolding pixels_2x2[OF dims] by (simp add: roi_def clamped_rect_sel checker4_def)
  have len: "length (pixels ?b) = 2 ^ 2" by (simp add: px)
  have sum: "(\<Sum>p\<leftarrow>pixels ?b. real_of_int (val p c)) = 510" for c
    by (simp add: px val_def)
  have mean: "cv_mean ?b c = 255 / 2" for c
    using cv_mean_pow2[OF len, of c] by (simp add: sum)
  have var: "calculateVariance ?b = (255 / 2)\<^sup>2"
    by (simp add: calculateVariance_def mat_empty_def dims px mean Let_def val_def power2_eq_square)
  have err: "block_error (new_Quadtree 1 1 VARIANCE 0) ?b c = (255 / 2)\<^sup>2" for c
    by (simp add: block_error_def new_Quadtree_def calculateError_def mat_empty_def dims var)
  show ?thesis
    by (simp add: decide_def decide_metric_def err Let_def new_BuildState_def MAX_NODES_def
        reset_modes_def clamped_rect_sel)
       (simp add: new_Quadtree_def checker4_def counted_def power2_eq_square fun_eq_iff)
qed

text \<open>
  C8, as stated, fails in its last part. Neither condition is undone during a build (the
  counter only grows, the flag is only raised), so once a call has returned early every
  later call returns early too: here the node counter is past the cap, the first quadrant
  of a 4x4 checkerboard is left as constructed, and the second quadrant, which the
  splitter subdivides when it is entered below the cap, is then left undivided as well.
\<close>

theorem stop_is_global_counterexample:
  "isLeaf (the (fst (quadtreeCompress (new_Quadtree 1 1 VARIANCE 0) checker4
             (snd (quadtreeCompress (new_Quadtree 1 1 VARIANCE 0) checker4 capped
                     (Some (new_QuadtreeNode 0 0 2 2)) 1))
             (Some (new_QuadtreeNode 2 0 2 2)) 1)))
   \<and> \<not> isLeaf (the (fst (quadtreeCompress (new_Quadtree 1 1 VARIANCE 0) checker4
                 new_BuildState (Some (new_QuadtreeNode 2 0 2 2)) 1)))"
proof -
  have c: "stop_requested capped"
    by (simp add: stop_requested_def capped_def MAX_NODES_def)
  have a: "quadtreeCompress (new_Quadtree 1 1 VARIANCE 0) checker4 capped n d = (n, capped)"
    for n d by (rule quadtreeCompress_stop[OF c])
  have b: "\<not> isLeaf (the (fst (quadtreeCompress (new_Quadtree 1 1 VARIANCE 0) checker4
                 new_BuildState (Some (new_QuadtreeNode 2 0 2 2)) 1)))"
    by (simp add: quadtreeCompress_decide checker4_quadrant_splits split: prod.splits)
  show ?thesis by (simp add: a b)
qed

text \<open>
  C8, amended. Whenever \<open>quadtreeCompress\<close> is entered with the timeout flag set or the
  node counter above 150000, the node is returned as it was: a freshly constructed node
  stays a leaf without children in neutral grey (128,128,128), and the counter and the
  flags are unchanged. Every later call of the same build then returns at once in the same
  way, so the remaining children of any loop stay as constructed; what was built before is
  kept.
\<close>

theorem stop_requested_returns:
  "timeoutFlag st \<or> nodeCounter st > 150000 \<Longrightarrow>
     quadtreeCompress q img st (Some (new_QuadtreeNode x y w h)) d
       = (Some (new_QuadtreeNode x y w h), st)
     \<and> isLeaf (new_QuadtreeNode x y w h)
     \<and> children (new_QuadtreeNode x y w h) = [None, None, None, None]
     \<and> avgColor (new_QuadtreeNode x y w h) = Vec3b 128 128 128
     \<and> quadtreeCompress q img st n' d' = (n', st)
     \<and> forChildren brk (\<lambda>s c. quadtreeCompress q img s c d') i cs st = (cs, st)"
proof -
  assume "timeoutFlag st \<or> nodeCounter st > 150000"
  then have s: "stop_requested st"
    by (simp add: stop_requested_def MAX_NODES_def)
  show ?thesis
    by (simp add: quadtreeCompress_stop[OF s] forChildren_stop[OF s])
qed

theorem stop_requested_returns_witness:
  "nodeCounter capped > 150000
   \<and> quadtreeCompress (new_Quadtree 1 1 VARIANCE 0) checker4 capped
        (Some (new_QuadtreeNode 0 0 2 2)) 1 = (Some (new_QuadtreeNode 0 0 2 2), capped)
   \<and> quadtreeCompress (new_Quadtree 1 1 VARIANCE 0) checker4 capped
        (Some (new_QuadtreeNode 2 0 2 2)) 1 = (Some (new_QuadtreeNode 2 0 2 2), capped)"
proof -
  have c: "nodeCounter capped > 150000" by (simp add: capped_def new_BuildState_def)
  then have "timeoutFlag capped \<or> nodeCounter capped > 150000" by simp
  from stop_requested_returns[OF this, of "new_Quadtree 1 1 VARIANCE 0" checker4 0 0 2 2 1
      "Some (new_QuadtreeNode 2 0 2 2)" 1] c
  show ?thesis by simp
qed

section \<open>The loop over the children\<close>

lemma forChildren_inv:
  assumes "I st"
    and "\<And>s c. c \<in> set cs \<Longrightarrow> I s \<Longrightarrow> I (snd (f s c)) \<and> R c (fst (f s c))"
    and "\<And>c. c \<in> set cs \<Longrightarrow> R c c"
  shows "I (snd (forChildren brk f i cs st))
         \<and> list_all2 R cs (fst (forChildren brk f i cs st))"
  using assms
proof (induction cs arbitrary: i st)
  case Nil
  then show ?case by simp
next
  case (Cons c cs)
  obtain c' st' where f: "f st c = (c', st')" by (cases "f st c")
  from Cons.prems(2)[of c st] Cons.prems(1) f have step: "I st'" "R c c'" by auto
  show ?case
  proof (cases "brk i \<and> timeoutFlag st'")
    case True
    with f step Cons.prems(3) show ?thesis
      by (auto simp: list_all2_same)
  next
    case False
    have "I (snd (forChildren brk f (Suc i) cs st'))
          \<and> list_all2 R cs (fst (forChildren brk f (Suc i) cs st'))"
      by (rule Cons.IH) (use step Cons.prems in auto)
    with f step False show ?thesis
      by (auto split: prod.splits)
  qed
qed

lemma forChildren_rel:
  assumes "\<And>s c. c \<in> set cs \<Longrightarrow> R c (fst (f s c))" and "\<And>c. c \<in> set cs \<Longrightarrow> R c c"
  shows "list_all2 R cs (fst (forChildren brk f i cs st))"
  using forChildren_inv[of "\<lambda>s. True" st cs f R brk i] assms by simp

definition same_rect :: "QuadtreeNode \<Rightarrow> QuadtreeNode \<Rightarrow> bool" where
  "same_rect a b =
     (node_x a = node_x b \<and> node_y a = node_y b \<and> node_width a = node_width b
      \<and> node_height a = node_height b)"

lemma same_rect_refl [simp]: "same_rect a a"
  by (simp add: same_rect_def)

lemma list_all2_four:
  "list_all2 (rel_option R) [Some a0, Some a1, Some a2, Some a3] rs \<longleftrightarrow>
     (\<exists>k0 k1 k2 k3. rs = [Some k0, Some k1, Some k2, Some k3]
        \<and> R a0 k0 \<and> R a1 k1 \<and> R a2 k2 \<and> R a3 k3)"
  by (auto simp: list_all2_Cons1 option_rel_Some1)

text \<open>A call returns the node it was given, with the same rectangle.\<close>

lemma quadtreeCompress_rect:
  "\<exists>k' s'. quadtreeCompress q img st (Some k) d = (Some k', s') \<and> same_rect k k'"
proof (cases "decide q img st k d")
  case Abort
  then show ?thesis by (simp add: quadtreeCompress_decide)
next
  case (Leaf n st')
  from decide_Leaf[OF Leaf] show ?thesis
    by (auto simp: quadtreeCompress_decide Leaf leaf_of_def same_rect_def)
next
  case (Split brk base hw hh rw rh st')
  from decide_Split[OF Split] show ?thesis
    by (auto simp: quadtreeCompress_decide Split base_of_def same_rect_def
        split: prod.splits)
qed

lemma quadtreeCompress_rel_rect:
  "rel_option same_rect c (fst (quadtreeCompress q img st c d))"
proof (cases c)
  case None
  then show ?thesis by simp
next
  case (Some k)
  with quadtreeCompress_rect[of q img st k d] show ?thesis by auto
qed

text \<open>The shape of a result whose node the call has marked internal.\<close>

lemma quadtreeCompress_internal:
  assumes "isLeaf node" "quadtreeCompress q img st (Some node) d = (Some n', st')"
    "\<not> isLeaf n'"
  obtains brk base hw hh rw rh s1 cs where
    "decide q img st node d = Split brk base hw hh rw rh s1"
    "forChildren brk (\<lambda>s c. quadtreeCompress q img s c (d + 1)) 0
        (make_children base hw hh rw rh) s1 = (cs, st')"
    "n' = set_children cs (set_isLeaf False base)"
proof (cases "decide q img st node d")
  case Abort
  with assms show ?thesis by (simp add: quadtreeCompress_decide)
next
  case (Leaf n s)
  from decide_Leaf[OF Leaf] assms show ?thesis
    by (auto simp: quadtreeCompress_decide Leaf leaf_of_def)
next
  case (Split brk base hw hh rw rh s1)
  with assms that show ?thesis
    by (auto simp: quadtreeCompress_decide split: prod.splits)
qed

lemma make_children_results:
  assumes "forChildren brk (\<lambda>s c. quadtreeCompress q img s c d) i
             (make_children base hw hh rw rh) s1 = (cs, st')"
  shows "\<exists>k0 k1 k2 k3. cs = [Some k0, Some k1, Some k2, Some k3]
     \<and> same_rect (new_QuadtreeNode (node_x base) (node_y base) hw hh) k0
     \<and> same_rect (new_QuadtreeNode (node_x base + hw) (node_y base) rw hh) k1
     \<and> same_rect (new_QuadtreeNode (node_x base) (node_y base + hh) hw rh) k2
     \<and> same_rect (new_QuadtreeNode (node_x base + hw) (node_y base + hh) rw rh) k3"
proof -
  have "list_all2 (rel_option same_rect) (make_children base hw hh rw rh)
          (fst (forChildren brk (\<lambda>s c. quadtreeCompress q img s c d) i
                  (make_children base hw hh rw rh) s1))"
    by (rule forChildren_rel) (simp_all add: quadtreeCompress_rel_rect option.rel_refl)
  with assms show ?thesis
    by (simp add: make_children_def list_all2_four)
qed

section \<open>Children partition their parent\<close>

definition box :: "int \<Rightarrow> int \<Rightarrow> int \<Rightarrow> int \<Rightarrow> (int \<times> int) set" where
  "box x y w h = {(px, py). x \<le> px \<and> px < x + w \<and> y \<le> py \<and> py < y + h}"

definition rect_pixels :: "QuadtreeNode \<Rightarrow> (int \<times> int) set" where
  "rect_pixels n = box (node_x n) (node_y n) (node_width n) (node_height n)"

lemma box_quarters_union:
  assumes "0 \<le> hw" "hw \<le> w" "0 \<le> hh" "hh \<le> h"
  shows "box x y hw hh \<union> box (x + hw) y (w - hw) hh \<union> box x (y + hh) hw (h - hh)
           \<union> box (x + hw) (y + hh) (w - hw) (h - hh) = box x y w h"
  using assms unfolding box_def by auto

lemma box_quarters_disjoint:
  "box x y hw hh \<inter> box (x + hw) y rw hh = {}"
  "box x y hw hh \<inter> box x (y + hh) hw rh = {}"
  "box x y hw hh \<inter> box (x + hw) (y + hh) rw rh = {}"
  "box (x + hw) y rw hh \<inter> box x (y + hh) hw rh = {}"
  "box (x + hw) y rw hh \<inter> box (x + hw) (y + hh) rw rh = {}"
  "box x (y + hh) hw rh \<inter> box (x + hw) (y + hh) rw rh = {}"
  unfolding box_def by auto

lemma rect_pixels_same: "same_rect a b \<Longrightarrow> rect_pixels b = rect_pixels a"
  by (simp add: same_rect_def rect_pixels_def)

lemma rect_pixels_new [simp]: "rect_pixels (new_QuadtreeNode x y w h) = box x y w h"
  by (simp add: rect_pixels_def)

lemma checker4_quadrant_internal:
  "\<not> isLeaf (the (fst (quadtreeCompress (new_Quadtree 1 1 VARIANCE 0) checker4
                 new_BuildState (Some (new_QuadtreeNode 2 0 2 2)) 1)))"
  by (simp add: quadtreeCompress_decide checker4_quadrant_splits split: prod.splits)

text \<open>
  C2. When the splitter marks a node internal (the node came in as a leaf and comes out
  internal), it has given it exactly four children: the first at (x, y) of size
  floor(width/2) x floor(height/2), the other three covering the rest of the width and
  height from the same midpoint; every dimension is at least 1, the four rectangles are
  pairwise disjoint and their union is the parent rectangle. The minimum block sizes are
  positive, as the interface requires.
\<close>

theorem split_creates_four_quarters:
  assumes "block_sizes_positive q" and "isLeaf node"
    and "quadtreeCompress q img st (Some node) d = (Some n', st')" and "\<not> isLeaf n'"
  shows "\<exists>k0 k1 k2 k3.
      children n' = [Some k0, Some k1, Some k2, Some k3] \<and> same_rect node n'
    \<and> same_rect k0 (new_QuadtreeNode (node_x node) (node_y node)
                      (node_width node div 2) (node_height node div 2))
    \<and> same_rect k1 (new_QuadtreeNode (node_x node + node_width node div 2) (node_y node)
                      (node_width node - node_width node div 2) (node_height node div 2))
    \<and> same_rect k2 (new_QuadtreeNode (node_x node) (node_y node + node_height node div 2)
                      (node_width node div 2) (node_height node - node_height node div 2))
    \<and> same_rect k3 (new_QuadtreeNode (node_x node + node_width node div 2)
                      (node_y node + node_height node div 2)
                      (node_width node - node_width node div 2)
                      (node_height node - node_height node div 2))
    \<and> 1 \<le> node_width k0 \<and> 1 \<le> node_height k0 \<and> 1 \<le> node_width k1 \<and> 1 \<le> node_height k1
    \<and> 1 \<le> node_width k2 \<and> 1 \<le> node_height k2 \<and> 1 \<le> node_width k3 \<and> 1 \<le> node_height k3
    \<and> rect_pixels k0 \<union> rect_pixels k1 \<union> rect_pixels k2 \<union> rect_pixels k3 = rect_pixels n'
    \<and> rect_pixels k0 \<inter> rect_pixels k1 = {} \<and> rect_pixels k0 \<inter> rect_pixels k2 = {}
    \<and> rect_pixels k0 \<inter> rect_pixels k3 = {} \<and> rect_pixels k1 \<inter> rect_pixels k2 = {}
    \<and> rect_pixels k1 \<inter> rect_pixels k3 = {} \<and> rect_pixels k2 \<inter> rect_pixels k3 = {}"
proof -
  from assms(2-4) obtain brk base hw hh rw rh s1 cs where
    dec: "decide q img st node d = Split brk base hw hh rw rh s1"
    and loop: "forChildren brk (\<lambda>s c. quadtreeCompress q img s c (d + 1)) 0
        (make_children base hw hh rw rh) s1 = (cs, st')"
    and n': "n' = set_children cs (set_isLeaf False base)"
    by (rule quadtreeCompress_internal)
  let ?x = "node_x node" and ?y = "node_y node"
  let ?w = "node_width node" and ?h = "node_height node"
  from decide_Split[OF dec] assms(1)
  have base: "node_x base = ?x" "node_y base = ?y" "node_width base = ?w"
      "node_height base = ?h"
    and size: "2 \<le> ?w" "2 \<le> ?h"
    and cut: "cut node hw hh rw rh"
    by (auto simp: base_of_def)
  from cut size have hw: "hw = ?w div 2" and hh: "hh = ?h div 2"
    and rw: "rw = ?w - ?w div 2" and rh: "rh = ?h - ?h div 2"
    by (auto simp: cut_def)
  from size have pos: "1 \<le> ?w div 2" "1 \<le> ?h div 2" "1 \<le> ?w - ?w div 2"
      "1 \<le> ?h - ?h div 2" "?w div 2 \<le> ?w" "?h div 2 \<le> ?h"
    by auto
  from make_children_results[OF loop] obtain k0 k1 k2 k3 where
    cs: "cs = [Some k0, Some k1, Some k2, Some k3]"
    and k0: "same_rect (new_QuadtreeNode ?x ?y (?w div 2) (?h div 2)) k0"
    and k1: "same_rect (new_QuadtreeNode (?x + ?w div 2) ?y (?w - ?w div 2) (?h div 2)) k1"
    and k2: "same_rect (new_QuadtreeNode ?x (?y + ?h div 2) (?w div 2) (?h - ?h div 2)) k2"
    and k3: "same_rect (new_QuadtreeNode (?x + ?w div 2) (?y + ?h div 2) (?w - ?w div 2)
                          (?h - ?h div 2)) k3"
    unfolding base hw hh rw rh by blast
  have par: "rect_pixels n' = box ?x ?y ?w ?h"
    by (simp add: n' rect_pixels_def base)
  have un: "rect_pixels k0 \<union> rect_pixels k1 \<union> rect_pixels k2 \<union> rect_pixels k3
              = rect_pixels n'"
    unfolding par rect_pixels_same[OF k0] rect_pixels_same[OF k1] rect_pixels_same[OF k2]
      rect_pixels_same[OF k3] rect_pixels_new
    using pos by (intro box_quarters_union) auto
  have dis: "rect_pixels k0 \<inter> rect_pixels k1 = {}" "rect_pixels k0 \<inter> rect_pixels k2 = {}"
    "rect_pixels k0 \<inter> rect_pixels k3 = {}" "rect_pixels k1 \<inter> rect_pixels k2 = {}"
    "rect_pixels k1 \<inter> rect_pixels k3 = {}" "rect_pixels k2 \<inter> rect_pixels k3 = {}"
    unfolding rect_pixels_same[OF k0] rect_pixels_same[OF k1] rect_pixels_same[OF k2]
      rect_pixels_same[OF k3] rect_pixels_new
    by (rule box_quarters_disjoint)+
  have dims: "1 \<le> node_width k0 \<and> 1 \<le> node_height k0 \<and> 1 \<le> node_width k1
      \<and> 1 \<le> node_height k1 \<and> 1 \<le> node_width k2 \<and> 1 \<le> node_height k2
      \<and> 1 \<le> node_width k3 \<and> 1 \<le> node_height k3"
    using k0 k1 k2 k3 pos by (simp add: same_rect_def)
  have sr: "same_rect node n'"
    by (simp add: n' same_rect_def base)
  have ch: "children n' = [Some k0, Some k1, Some k2, Some k3]"
    by (simp add: n' cs)
  from k0 k1 k2 k3 have sym:
    "same_rect k0 (new_QuadtreeNode ?x ?y (?w div 2) (?h div 2))"
    "same_rect k1 (new_QuadtreeNode (?x + ?w div 2) ?y (?w - ?w div 2) (?h div 2))"
    "same_rect k2 (new_QuadtreeNode ?x (?y + ?h div 2) (?w div 2) (?h - ?h div 2))"
    "same_rect k3 (new_QuadtreeNode (?x + ?w div 2) (?y + ?h div 2) (?w - ?w div 2)
                     (?h - ?h div 2))"
    by (simp_all add: same_rect_def)
  from ch sr sym dims un dis show ?thesis by blast
qed

theorem split_creates_four_quarters_witness:
  "block_sizes_positive (new_Quadtree 1 1 VARIANCE 0) \<and> isLeaf (new_QuadtreeNode 2 0 2 2)
   \<and> \<not> isLeaf (the (fst (quadtreeCompress (new_Quadtree 1 1 VARIANCE 0) checker4
                 new_BuildState (Some (new_QuadtreeNode 2 0 2 2)) 1)))
   \<and> (\<exists>k0 k1 k2 k3.
        children (the (fst (quadtreeCompress (new_Quadtree 1 1 VARIANCE 0) checker4
                 new_BuildState (Some (new_QuadtreeNode 2 0 2 2)) 1)))
          = [Some k0, Some k1, Some k2, Some k3]
        \<and> same_rect k0 (new_QuadtreeNode 2 0 1 1) \<and> same_rect k1 (new_QuadtreeNode 3 0 1 1)
        \<and> same_rect k2 (new_QuadtreeNode 2 1 1 1) \<and> same_rect k3 (new_QuadtreeNode 3 1 1 1))"
proof -
  let ?q = "new_Quadtree 1 1 VARIANCE 0"
  let ?r = "quadtreeCompress ?q checker4 new_BuildState (Some (new_QuadtreeNode 2 0 2 2)) 1"
  have p: "block_sizes_positive ?q"
    by (simp add: block_sizes_positive_def new_Quadtree_def)
  have l: "isLeaf (new_QuadtreeNode 2 0 2 2)" by simp
  from quadtreeCompress_rect[of ?q checker4 new_BuildState "new_QuadtreeNode 2 0 2 2" 1]
  have r: "?r = (Some (the (fst ?r)), snd ?r)" by auto
  note i = checker4_quadrant_internal
  from split_creates_four_quarters[OF p l r i] p l i show ?thesis
    by simp blast
qed

section \<open>The leaf/children invariant\<close>

fun subnodes :: "QuadtreeNode \<Rightarrow> QuadtreeNode list" where
  "subnodes (Node x y w h c cs l) =
     Node x y w h c cs l
       # concat (map (\<lambda>k. case k of None \<Rightarrow> [] | Some n \<Rightarrow> subnodes n) cs)"

definition node_inv :: "QuadtreeNode \<Rightarrow> bool" where
  "node_inv n =
     ((isLeaf n \<and> children n = [None, None, None, None])
      \<or> (\<not> isLeaf n \<and> length (children n) = 4 \<and> None \<notin> set (children n)))"

definition pristine :: "QuadtreeNode \<Rightarrow> bool" where
  "pristine n = (isLeaf n \<and> children n = [None, None, None, None])"

lemma subnodes_unfold:
  "subnodes n = n # concat (map (\<lambda>k. case k of None \<Rightarrow> [] | Some m \<Rightarrow> subnodes m) (children n))"
  by (cases n) simp

lemma subnodes_pristine: "pristine n \<Longrightarrow> subnodes n = [n]"
  by (subst subnodes_unfold) (simp add: pristine_def)

lemma pristine_new [simp]: "pristine (new_QuadtreeNode x y w h)"
  by (simp add: pristine_def)

lemma pristine_leaf_of: "pristine node \<Longrightarrow> leaf_of img node n \<Longrightarrow> pristine n"
  by (auto simp: pristine_def leaf_of_def)

lemma set_subnodes_set_children:
  "set (subnodes (set_children cs b))
     = insert (set_children cs b) (\<Union>k \<in> {k. Some k \<in> set cs}. set (subnodes k))"
  by (subst subnodes_unfold) (auto split: option.splits)

text \<open>
  A property \<open>Q\<close> of every node of the tree that a call builds from a pristine node:
  it is enough that \<open>Q\<close> holds of pristine nodes and of a split node with its four
  processed children.
\<close>

lemma quadtreeCompress_all_nodes:
  assumes leaf: "\<And>n. pristine n \<Longrightarrow> Q n"
    and split: "\<And>st node d brk base hw hh rw rh st' cs.
        decide q img st node d = Split brk base hw hh rw rh st'
        \<Longrightarrow> list_all2 (rel_option same_rect) (make_children base hw hh rw rh) cs
        \<Longrightarrow> Q (set_children cs (set_isLeaf False base))"
  shows "pristine k \<Longrightarrow> \<exists>k' s'. quadtreeCompress q img st (Some k) d = (Some k', s')
           \<and> (\<forall>n \<in> set (subnodes k'). Q n)"
proof -
  have "\<forall>k. n = Some k \<longrightarrow> pristine k \<longrightarrow>
          (\<exists>k' s'. quadtreeCompress q img st n d = (Some k', s')
             \<and> (\<forall>m \<in> set (subnodes k'). Q m))" for n
  proof (induction st n d rule: quadtreeCompress_induct[where q = q and img = img])
    case (Null st d)
    then show ?case by simp
  next
    case (Node st node d)
    show ?case
    proof (intro allI impI)
      fix k assume "Some node = Some k" and pr: "pristine k"
      then have k: "k = node" by simp
      show "\<exists>k' s'. quadtreeCompress q img st (Some node) d = (Some k', s')
              \<and> (\<forall>m \<in> set (subnodes k'). Q m)"
      proof (cases "decide q img st node d")
        case Abort
        with pr k leaf show ?thesis
          by (simp add: quadtreeCompress_decide subnodes_pristine)
      next
        case (Leaf n st')
        from decide_Leaf[OF Leaf] pr k have "pristine n"
          by (auto intro: pristine_leaf_of)
        with Leaf leaf show ?thesis
          by (simp add: quadtreeCompress_decide subnodes_pristine)
      next
        case (Split brk base hw hh rw rh st')
        let ?R = "\<lambda>c c'. rel_option same_rect c c'
                    \<and> (\<forall>b. c' = Some b \<longrightarrow> (\<forall>m \<in> set (subnodes b). Q m))"
        let ?ks = "make_children base hw hh rw rh"
        obtain cs st2 where loop:
          "forChildren brk (\<lambda>s c. quadtreeCompress q img s c (d + 1)) 0 ?ks st' = (cs, st2)"
          by (cases "forChildren brk (\<lambda>s c. quadtreeCompress q img s c (d + 1)) 0 ?ks st'")
        have "list_all2 ?R ?ks
               (fst (forChildren brk (\<lambda>s c. quadtreeCompress q img s c (d + 1)) 0 ?ks st'))"
        proof (rule forChildren_rel)
          fix s c assume c: "c \<in> set ?ks"
          then obtain a where a: "c = Some a" "pristine a"
            by (auto simp: make_children_def)
          from Node.IH[OF Split c, of s] a quadtreeCompress_rel_rect[of c q img s "d + 1"]
          show "?R c (fst (quadtreeCompress q img s c (d + 1)))" by auto
        next
          fix c assume c: "c \<in> set ?ks"
          then obtain a where a: "c = Some a" "pristine a"
            by (auto simp: make_children_def)
          with leaf show "?R c c" by (simp add: subnodes_pristine)
        qed
        with loop have all: "list_all2 ?R ?ks cs" by simp
        then have rel: "list_all2 (rel_option same_rect) ?ks cs"
          and sub: "\<And>b. Some b \<in> set cs \<Longrightarrow> \<forall>m \<in> set (subnodes b). Q m"
          by (auto simp: make_children_def list_all2_Cons1)
        have "Q (set_children cs (set_isLeaf False base))"
          by (rule split[OF Split rel])
        with sub have "\<forall>m \<in> set (subnodes (set_children cs (set_isLeaf False base))). Q m"
          by (auto simp: set_subnodes_set_children)
        with Split loop show ?thesis
          by (simp add: quadtreeCompress_decide)
      qed
    qed
  qed
  then show "pristine k \<Longrightarrow> \<exists>k' s'. quadtreeCompress q img st (Some k) d = (Some k', s')
           \<and> (\<forall>n \<in> set (subnodes k'). Q n)"
    by blast
qed

lemma build_tree_all_nodes:
  assumes leaf: "\<And>n. pristine n \<Longrightarrow> Q n"
    and split: "\<And>st node d brk base hw hh rw rh st' cs.
        decide q img st node d = Split brk base hw hh rw rh st'
        \<Longrightarrow> list_all2 (rel_option same_rect) (make_children base hw hh rw rh) cs
        \<Longrightarrow> Q (set_children cs (set_isLeaf False base))"
    and root: "\<And>cs. int (rows img) * int (cols img) > 500000
        \<Longrightarrow> list_all2 (rel_option same_rect)
              (make_children (new_QuadtreeNode 0 0 (int (cols img)) (int (rows img)))
                 (max 1 (cdiv (int (cols img)) 2)) (max 1 (cdiv (int (rows img)) 2))
                 (int (cols img) - max 1 (cdiv (int (cols img)) 2))
                 (int (rows img) - max 1 (cdiv (int (rows img)) 2))) cs
        \<Longrightarrow> Q (set_children cs
                 (set_isLeaf False (new_QuadtreeNode 0 0 (int (cols img)) (int (rows img)))))"
  shows "\<exists>t s'. build_tree q st img = (Some t, s') \<and> (\<forall>n \<in> set (subnodes t). Q n)"
proof -
  have call: "\<exists>k' s'. quadtreeCompress q img s (Some k) d = (Some k', s')
                 \<and> (\<forall>n \<in> set (subnodes k'). Q n)" if "pristine k" for k s d
  proof (rule quadtreeCompress_all_nodes[where Q = Q])
    show "Q n" if "pristine n" for n using that by (rule leaf)
    show "Q (set_children cs (set_isLeaf False base))"
      if "decide q img st node d = Split brk base hw hh rw rh st'"
        and "list_all2 (rel_option same_rect) (make_children base hw hh rw rh) cs"
      for st node d brk base hw hh rw rh st' cs
      using that by (rule split)
    show "pristine k" by (rule that)
  qed
  show ?thesis
  proof (cases "int (rows img) * int (cols img) > 500000")
  case False
  with call[of "new_QuadtreeNode 0 0 (int (cols img)) (int (rows img))" st 0]
  show ?thesis
    by (simp add: build_tree_def Let_def)
next
  case True
  let ?root = "new_QuadtreeNode 0 0 (int (cols img)) (int (rows img))"
  let ?ks = "make_children ?root
                 (max 1 (cdiv (int (cols img)) 2)) (max 1 (cdiv (int (rows img)) 2))
                 (int (cols img) - max 1 (cdiv (int (cols img)) 2))
                 (int (rows img) - max 1 (cdiv (int (rows img)) 2))"
  let ?R = "\<lambda>c c'. rel_option same_rect c c'
              \<and> (\<forall>b. c' = Some b \<longrightarrow> (\<forall>m \<in> set (subnodes b). Q m))"
  obtain cs st2 where loop:
    "forChildren (\<lambda>i. False) (\<lambda>s c. quadtreeCompress q img s c 1) 0 ?ks st = (cs, st2)"
    by (cases "forChildren (\<lambda>i. False) (\<lambda>s c. quadtreeCompress q img s c 1) 0 ?ks st")
  have "list_all2 ?R ?ks
          (fst (forChildren (\<lambda>i. False) (\<lambda>s c. quadtreeCompress q img s c 1) 0 ?ks st))"
  proof (rule forChildren_rel)
    fix s c assume c: "c \<in> set ?ks"
    then obtain a where a: "c = Some a" "pristine a"
      by (auto simp: make_children_def)
    from call[of a s 1] a quadtreeCompress_rel_rect[of c q img s 1]
    show "?R c (fst (quadtreeCompress q img s c 1))" by auto
  next
    fix c assume c: "c \<in> set ?ks"
    then obtain a where a: "c = Some a" "pristine a"
      by (auto simp: make_children_def)
    with leaf show "?R c c" by (simp add: subnodes_pristine)
  qed
  with loop have all: "list_all2 ?R ?ks cs" by simp
  then have rel: "list_all2 (rel_option same_rect) ?ks cs"
    and sub: "\<And>b. Some b \<in> set cs \<Longrightarrow> \<forall>m \<in> set (subnodes b). Q m"
    by (auto simp: make_children_def list_all2_Cons1)
  have "Q (set_children cs (set_isLeaf False ?root))"
    by (rule root[OF True rel])
  with sub have "\<forall>m \<in> set (subnodes (set_children cs (set_isLeaf False ?root))). Q m"
    by (auto simp: set_subnodes_set_children)
  with True loop show ?thesis
    by (simp add: build_tree_def Let_def)
  qed
qed

lemma node_inv_split:
  "list_all2 (rel_option same_rect) (make_children base hw hh rw rh) cs
     \<Longrightarrow> node_inv (set_children cs (set_isLeaf False base))"
  by (auto simp: node_inv_def make_children_def list_all2_Cons1 option_rel_Some1)

lemma compressImage_build:
  "\<exists>q' st1. compressImage resize q img
      = (fst (build_tree q' st1 img), q', snd (build_tree q' st1 img))"
  unfolding compressImage_def Let_def case_prod_beta by blast

text \<open>
  C4. In every tree that \<open>compressImage\<close> produces, each node either is a leaf whose four
  child pointers are null, or is not a leaf and has four children, all present; the two
  cases exclude each other. \<open>compressImage\<close> builds the tree from a fresh root each time, and
  the other operations (reconstruction, depth and counts) only read the tree.
\<close>

theorem compressImage_leaf_or_four_children:
  "\<exists>t q' st'. compressImage resize q sourceImage = (Some t, q', st')
     \<and> (\<forall>n \<in> set (subnodes t).
           (isLeaf n \<and> children n = [None, None, None, None])
           \<or> (\<not> isLeaf n \<and> length (children n) = 4 \<and> None \<notin> set (children n)))"
proof -
  obtain q' st1 where c: "compressImage resize q sourceImage
      = (fst (build_tree q' st1 sourceImage), q', snd (build_tree q' st1 sourceImage))"
    using compressImage_build by blast
  have "\<exists>t s'. build_tree q' st1 sourceImage = (Some t, s')
          \<and> (\<forall>n \<in> set (subnodes t). node_inv n)"
  proof (rule build_tree_all_nodes)
    show "node_inv n" if "pristine n" for n
      using that by (simp add: node_inv_def pristine_def)
  qed (erule node_inv_split)+
  with c show ?thesis by (auto simp: node_inv_def)
qed

theorem compressImage_leaf_or_four_children_witness:
  "\<exists>t q' st'. compressImage id (new_Quadtree 1 1 VARIANCE 0) checker4 = (Some t, q', st')
     \<and> list_all node_inv (subnodes t)"
  using compressImage_leaf_or_four_children[of id "new_Quadtree 1 1 VARIANCE 0" checker4]
  by (simp add: node_inv_def list_all_iff)

section \<open>The entropy metric\<close>

lemma uchar_bound: "unat (w :: uchar) < 256"
  using unsigned_less[of w, where 'a = nat] by simp

lemma pixel_diff_bounds: "0 \<le> pixel_diff p f" "pixel_diff p f \<le> 765"
proof -
  have "\<bar>val p c - val f c\<bar> \<le> 255" for c
    using val_bounds[of p c] val_bounds[of f c] by linarith
  from this[of 0] this[of 1] this[of 2] show "pixel_diff p f \<le> 765"
    unfolding pixel_diff_def by linarith
  show "0 \<le> pixel_diff p f" by (simp add: pixel_diff_def)
qed

lemma fold_max_bounds:
  fixes g :: "'a \<Rightarrow> real"
  assumes "\<And>x. x \<in> set xs \<Longrightarrow> g x \<le> u" "m \<le> u" "0 \<le> m"
  shows "0 \<le> fold (\<lambda>x m. max m (g x)) xs m \<and> fold (\<lambda>x m. max m (g x)) xs m \<le> u"
  using assms by (induction xs arbitrary: m) (simp_all add: max.coboundedI1)

lemma fold_min_le:
  fixes m :: uchar
  shows "fold (\<lambda>p m. min m (g p)) ps m \<le> m"
proof (induction ps arbitrary: m)
  case Nil
  then show ?case by simp
next
  case (Cons a ps)
  have "fold (\<lambda>p m. min m (g p)) ps (min m (g a)) \<le> min m (g a)" by (rule Cons.IH)
  also have "\<dots> \<le> m" by simp
  finally show ?case by simp
qed

lemma fold_min_le_elem:
  fixes m :: uchar
  shows "p \<in> set ps \<Longrightarrow> fold (\<lambda>p m. min m (g p)) ps m \<le> g p"
proof (induction ps arbitrary: m)
  case Nil
  then show ?case by simp
next
  case (Cons a ps)
  show ?case
  proof (cases "p = a")
    case True
    have "fold (\<lambda>p m. min m (g p)) ps (min m (g a)) \<le> min m (g a)" by (rule fold_min_le)
    also have "\<dots> \<le> g a" by simp
    finally show ?thesis using True by simp
  next
    case False
    with Cons.prems have "p \<in> set ps" by simp
    from Cons.IH[OF this] show ?thesis by simp
  qed
qed

lemma fold_max_ge:
  fixes m :: uchar
  shows "m \<le> fold (\<lambda>p m. max m (g p)) ps m"
proof (induction ps arbitrary: m)
  case Nil
  then show ?case by simp
next
  case (Cons a ps)
  have "m \<le> max m (g a)" by simp
  also have "\<dots> \<le> fold (\<lambda>p m. max m (g p)) ps (max m (g a))" by (rule Cons.IH)
  finally show ?case by simp
qed

lemma fold_max_ge_elem:
  fixes m :: uchar
  shows "p \<in> set ps \<Longrightarrow> g p \<le> fold (\<lambda>p m. max m (g p)) ps m"
proof (induction ps arbitrary: m)
  case Nil
  then show ?case by simp
next
  case (Cons a ps)
  show ?case
  proof (cases "p = a")
    case True
    have "g a \<le> max m (g a)" by simp
    also have "\<dots> \<le> fold (\<lambda>p m. max m (g p)) ps (max m (g a))" by (rule fold_max_ge)
    finally show ?thesis using True by simp
  next
    case False
    with Cons.prems have "p \<in> set ps" by simp
    from Cons.IH[OF this] show ?thesis by simp
  qed
qed

lemma range_bounds:
  assumes "pixels block \<noteq> []"
  shows "0 \<le> uint (maxVal block c) - uint (minVal block c)"
    and "uint (maxVal block c) - uint (minVal block c) \<le> 255"
proof -
  from assms obtain p where p: "p \<in> set (pixels block)"
    by (cases "pixels block") auto
  have "minVal block c \<le> chan p c" "chan p c \<le> maxVal block c"
    unfolding minVal_def maxVal_def
    using fold_min_le_elem[OF p, of "\<lambda>p. chan p c" 255]
      fold_max_ge_elem[OF p, of "\<lambda>p. chan p c" 0]
    by simp_all
  then have "uint (minVal block c) \<le> uint (maxVal block c)"
    by (simp add: word_le_def)
  then show "0 \<le> uint (maxVal block c) - uint (minVal block c)" by simp
  have "uint (maxVal block c) < 256" using uint_lt2p[of "maxVal block c"] by simp
  moreover have "0 \<le> uint (minVal block c)" by simp
  ultimately show "uint (maxVal block c) - uint (minVal block c) \<le> 255" by linarith
qed

lemma third_bounds:
  assumes "0 \<le> (k :: int)" "k \<le> 765"
  shows "0 \<le> real_of_int k / 3 \<and> real_of_int k / 3 \<le> 255"
proof -
  from assms(2) have "real_of_int k \<le> 765"
    using of_int_le_iff[of k 765, where 'a = real] by simp
  with assms(1) show ?thesis by simp
qed

lemma calculateMaxPixelDiff_bounds:
  "0 \<le> calculateMaxPixelDiff block \<and> calculateMaxPixelDiff block \<le> 255"
proof (cases "mat_empty block")
  case True
  then show ?thesis by (simp add: calculateMaxPixelDiff_def)
next
  case False
  then have ne: "pixels block \<noteq> []"
    using length_pixels[of block] by (auto simp: mat_empty_def)
  show ?thesis
  proof (cases "int (rows block) * int (cols block) \<le> 4")
    case True
    have "0 \<le> fold (\<lambda>pixel maxDiff. max maxDiff (pixel_diff pixel (pixel_at block 0 0) / 3))
                 (pixels block) 0
          \<and> fold (\<lambda>pixel maxDiff. max maxDiff (pixel_diff pixel (pixel_at block 0 0) / 3))
                 (pixels block) 0 \<le> 255"
      by (rule fold_max_bounds) (use pixel_diff_bounds in \<open>simp_all add: field_simps\<close>)
    with True False show ?thesis
      by (simp add: calculateMaxPixelDiff_def Let_def)
  next
    case big: False
    from range_bounds[OF ne, of 0] range_bounds[OF ne, of 1] range_bounds[OF ne, of 2]
    have "0 \<le> (uint (maxVal block 0) - uint (minVal block 0))
                + (uint (maxVal block 1) - uint (minVal block 1))
                + (uint (maxVal block 2) - uint (minVal block 2))"
      and "(uint (maxVal block 0) - uint (minVal block 0))
                + (uint (maxVal block 1) - uint (minVal block 1))
                + (uint (maxVal block 2) - uint (minVal block 2)) \<le> 765"
      by linarith+
    then have "0 \<le> real_of_int ((uint (maxVal block 0) - uint (minVal block 0))
                + (uint (maxVal block 1) - uint (minVal block 1))
                + (uint (maxVal block 2) - uint (minVal block 2))) / 3
        \<and> real_of_int ((uint (maxVal block 0) - uint (minVal block 0))
                + (uint (maxVal block 1) - uint (minVal block 1))
                + (uint (maxVal block 2) - uint (minVal block 2))) / 3 \<le> 255"
      by (rule third_bounds)
    with big False show ?thesis
      by (simp add: calculateMaxPixelDiff_def)
  qed
qed

text \<open>
  The histogram as the specification describes it: bin \<open>i\<close> counts the pixels whose
  channel 0 is \<open>i\<close> (bins 0..255), whose channel 1 is \<open>i - 256\<close> (bins 256..511) or whose
  channel 2 is \<open>i - 512\<close> (bins 512..767); the Shannon entropy in bits sums
  \<open>- p * log2 p\<close> over the occupied bins, \<open>p\<close> the bin's share of the pixel count.
\<close>

definition in_bin :: "Vec3b \<Rightarrow> nat \<Rightarrow> bool" where
  "in_bin p i = (i = unat (ch0 p) \<or> i = 256 + unat (ch1 p) \<or> i = 512 + unat (ch2 p))"

definition bin_count :: "Mat \<Rightarrow> nat \<Rightarrow> int" where
  "bin_count block i = int (length (filter (\<lambda>p. in_bin p i) (pixels block)))"

definition bin_term :: "nat \<Rightarrow> int \<Rightarrow> real" where
  "bin_term sampleCount h =
     (if h > 0 then (real_of_int h / real sampleCount) * log 2 (real_of_int h / real sampleCount)
      else 0)"

definition spec_entropy :: "Mat \<Rightarrow> real" where
  "spec_entropy block =
     - (\<Sum>i<768. bin_term (length (pixels block)) (bin_count block i))"

lemma hist_add_length [simp]: "length (hist_add p h) = length h"
  by (simp add: hist_add_def Let_def)

lemma hist_add_nth:
  assumes "length h = 768" "i < 768"
  shows "hist_add p h ! i = h ! i + (if in_bin p i then 1 else 0)"
  using assms uchar_bound[of "ch0 p"] uchar_bound[of "ch1 p"] uchar_bound[of "ch2 p"]
  by (auto simp: hist_add_def Let_def in_bin_def nth_list_update)

lemma fold_hist_add:
  assumes "length h = 768" "i < 768"
  shows "length (fold hist_add ps h) = 768
         \<and> fold hist_add ps h ! i = h ! i + int (length (filter (\<lambda>p. in_bin p i) ps))"
  using assms
proof (induction ps arbitrary: h)
  case Nil
  then show ?case by simp
next
  case (Cons p ps)
  have "length (hist_add p h) = 768" using Cons.prems by simp
  from Cons.IH[OF this Cons.prems(2)] hist_add_nth[OF Cons.prems, of p]
  show ?case by simp
qed

lemma histogram_eq: "histogram block = map (bin_count block) [0..<768]"
proof (rule nth_equalityI)
  show "length (histogram block) = length (map (bin_count block) [0..<768])"
    using fold_hist_add[of "replicate 768 0" 0 "pixels block"] by (simp add: histogram_def)
  fix i assume "i < length (histogram block)"
  then have i: "i < 768"
    using fold_hist_add[of "replicate 768 0" 0 "pixels block"] by (simp add: histogram_def)
  with fold_hist_add[of "replicate 768 0" i "pixels block"]
  show "histogram block ! i = map (bin_count block) [0..<768] ! i"
    by (simp add: histogram_def bin_count_def)
qed

lemma fold_entropy_step:
  "fold (entropy_step N) hs ec
     = (fst ec - (\<Sum>h\<leftarrow>hs. bin_term N h), snd ec + real (length (filter (\<lambda>h. h > 0) hs)))"
  by (induction hs arbitrary: ec) (simp_all add: entropy_step_def bin_term_def Let_def)

lemma bin_term_zero: "\<forall>h \<in> set hs. \<not> h > 0 \<Longrightarrow> (\<Sum>h\<leftarrow>hs. bin_term N h) = 0"
  by (induction hs) (simp_all add: bin_term_def)

lemma bin_term_nonpos:
  assumes "h \<le> int N"
  shows "bin_term N h \<le> 0"
proof (cases "h > 0")
  case False
  then show ?thesis by (simp add: bin_term_def)
next
  case True
  with assms have N: "0 < N" by linarith
  let ?p = "real_of_int h / real N"
  from True N have p0: "0 < ?p" by simp
  from assms N have p1: "?p \<le> 1" by simp
  from p0 p1 have "log 2 ?p \<le> 0" by simp
  with p0 have "?p * log 2 ?p \<le> 0"
    by (intro mult_nonneg_nonpos) simp_all
  with True show ?thesis by (simp add: bin_term_def)
qed

lemma bin_count_le: "bin_count block i \<le> int (length (pixels block))"
  by (simp add: bin_count_def)

lemma spec_entropy_nonneg: "0 \<le> spec_entropy block"
proof -
  have "(\<Sum>i<768. bin_term (length (pixels block)) (bin_count block i)) \<le> 0"
    by (rule sum_nonpos) (rule bin_term_nonpos, rule bin_count_le)
  then show ?thesis unfolding spec_entropy_def by linarith
qed

lemma sum_list_map_upt:
  fixes g :: "'a \<Rightarrow> real"
  shows "(\<Sum>h\<leftarrow>map f [0..<n]. g h) = (\<Sum>i<n. g (f i))"
  by (simp add: comp_def interv_sum_list_conv_sum_set_nat atLeast0LessThan)

lemma calculateEntropy_large:
  assumes "16 \<le> int (rows block) * int (cols block)"
  shows "calculateEntropy block = min (spec_entropy block / 3) 5"
proof -
  let ?N = "length (pixels block)"
  define hs where "hs = histogram block"
  have hs: "hs = map (bin_count block) [0..<768]"
    unfolding hs_def by (rule histogram_eq)
  have "rows block \<noteq> 0"
  proof
    assume "rows block = 0"
    with assms show False by simp
  qed
  moreover have "cols block \<noteq> 0"
  proof
    assume "cols block = 0"
    with assms show False by simp
  qed
  ultimately have N: "?N \<noteq> 0" and ne: "\<not> mat_empty block"
    by (simp_all add: length_pixels mat_empty_def)
  have sum: "(\<Sum>h\<leftarrow>hs. bin_term ?N h) = - spec_entropy block"
    unfolding hs spec_entropy_def sum_list_map_upt by (rule minus_minus[symmetric])
  have ec: "fold (entropy_step ?N) hs (0, 0)
      = (spec_entropy block, real (length (filter (\<lambda>h. h > 0) hs)))"
    by (simp add: fold_entropy_step sum)
  have third: "(if real (length (filter (\<lambda>h. h > 0) hs)) > 0 then spec_entropy block / 3
                else spec_entropy block) = spec_entropy block / 3"
  proof (cases "length (filter (\<lambda>h. h > 0) hs) = 0")
    case True
    then have "\<forall>h \<in> set hs. \<not> h > 0"
      by (simp add: filter_empty_conv)
    from bin_term_zero[OF this, of ?N] sum have "spec_entropy block = 0" by simp
    then show ?thesis by simp
  next
    case False
    then show ?thesis by simp
  qed
  have "calculateEntropy block
      = (let ec = fold (entropy_step ?N) hs (0, 0);
             entropy = (if snd ec > 0 then fst ec / 3 else fst ec)
         in min entropy 5)"
    using assms ne N unfolding calculateEntropy_def hs_def Let_def by simp
  also have "\<dots> = min (spec_entropy block / 3) 5"
    unfolding ec Let_def fst_conv snd_conv third ..
  finally show ?thesis .
qed

text \<open>
  C9. On a region of fewer than 16 pixels the entropy metric is the Max Pixel Difference
  divided by 255, a value between 0 and 1; on a larger region it is the base-2 Shannon
  entropy of the 768-bin per-channel histogram, divided by 3 and capped at 5; in both cases
  the result lies between 0 and 5.
\<close>

theorem calculateEntropy_range:
  "(int (rows block) * int (cols block) < 16
      \<longrightarrow> calculateEntropy block = calculateMaxPixelDiff block / 255
          \<and> 0 \<le> calculateMaxPixelDiff block / 255 \<and> calculateMaxPixelDiff block / 255 \<le> 1)
   \<and> (16 \<le> int (rows block) * int (cols block)
      \<longrightarrow> calculateEntropy block = min (spec_entropy block / 3) 5)
   \<and> 0 \<le> calculateEntropy block \<and> calculateEntropy block \<le> 5"
proof (cases "int (rows block) * int (cols block) < 16")
  case True
  then have e: "calculateEntropy block = calculateMaxPixelDiff block / 255"
    by (simp add: calculateEntropy_def)
  from calculateMaxPixelDiff_bounds[of block]
  have "0 \<le> calculateMaxPixelDiff block / 255 \<and> calculateMaxPixelDiff block / 255 \<le> 1"
    by simp
  with True e show ?thesis by simp
next
  case False
  then have big: "16 \<le> int (rows block) * int (cols block)" by simp
  note e = calculateEntropy_large[OF big]
  from spec_entropy_nonneg[of block] have "0 \<le> min (spec_entropy block / 3) 5" by simp
  with False big e show ?thesis by simp
qed

theorem calculateEntropy_range_witness:
  "int (rows checker2) * int (cols checker2) < 16
   \<and> calculateEntropy checker2 = calculateMaxPixelDiff checker2 / 255
   \<and> 16 \<le> int (rows checker4) * int (cols checker4)
   \<and> calculateEntropy checker4 = min (spec_entropy checker4 / 3) 5
   \<and> 0 \<le> calculateEntropy checker4 \<and> calculateEntropy checker4 \<le> 5"
proof -
  have s: "int (rows checker2) * int (cols checker2) < 16" by (simp add: checker2_def)
  have b: "16 \<le> int (rows checker4) * int (cols checker4)" by (simp add: checker4_def)
  from calculateEntropy_range[of checker2] s
  have A: "calculateEntropy checker2 = calculateMaxPixelDiff checker2 / 255" by blast
  from calculateEntropy_range[of checker4] b
  have B: "calculateEntropy checker4 = min (spec_entropy checker4 / 3) 5
      \<and> 0 \<le> calculateEntropy checker4 \<and> calculateEntropy checker4 \<le> 5" by blast
  from s b A B show ?thesis by blast
qed

section \<open>Uniform regions\<close>

definition uniform_image :: "Mat \<Rightarrow> Vec3b \<Rightarrow> bool" where
  "uniform_image img c =
     (\<forall>i j. 0 \<le> i \<and> i < int (rows img) \<and> 0 \<le> j \<and> j < int (cols img)
        \<longrightarrow> pixel_at img i j = c)"

lemma set_pixels:
  "set (pixels b) = {pixel_at b (int i) (int j) | i j. i < rows b \<and> j < cols b}"
  unfolding pixels_def by auto blast

lemma pixels_replicate:
  assumes "\<forall>p \<in> set (pixels b). p = c"
  shows "pixels b = replicate (rows b * cols b) c"
  using assms length_pixels[of b] by (metis replicate_length_same)

lemma sum_list_replicate_real:
  fixes x :: real
  shows "sum_list (replicate n x) = real n * x"
  by (induction n) (simp_all add: algebra_simps)















lemma roi_uniform:
  assumes "uniform_image img c" "0 \<le> node_x n" "0 \<le> node_y n"
  shows "\<exists>k. pixels (roi img (clamped_rect img n)) = replicate k c"
proof -
  have "\<forall>p \<in> set (pixels (roi img (clamped_rect img n))). p = c"
  proof
    fix p assume "p \<in> set (pixels (roi img (clamped_rect img n)))"
    then obtain i j where p: "p = pixel_at (roi img (clamped_rect img n)) (int i) (int j)"
      and i: "i < rows (roi img (clamped_rect img n))"
      and j: "j < cols (roi img (clamped_rect img n))"
      unfolding set_pixels by blast
    from i j assms(2,3) have "0 \<le> node_y n + int i \<and> node_y n + int i < int (rows img)
        \<and> 0 \<le> node_x n + int j \<and> node_x n + int j < int (cols img)"
      by (simp add: roi_def clamped_rect_sel) linarith
    with assms(1) have "pixel_at img (node_y n + int i) (node_x n + int j) = c"
      by (simp add: uniform_image_def)
    with p assms(2,3) show "p = c"
      by (simp add: roi_def clamped_rect_sel)
  qed
  from pixels_replicate[OF this] show ?thesis by blast
qed





text \<open>
  The bound on the threshold is needed under the metrics that use the library mean. For 49
  pixels of value 1 the reciprocal of 49 rounds down, the product with 49 rounds to the
  largest double below 1, the variance of the block is \<open>2^-106\<close>, and a 7x7 image of
  that single colour is split when the threshold is \<open>10^-40\<close>.
\<close>

lemma round_double_eval:
  assumes "2 ^ 52 \<le> \<bar>x\<bar> / 2 powr real_of_int e" and "\<bar>x\<bar> / 2 powr real_of_int e < 2 ^ 53"
  shows "round_double x
           = real_of_int (round_half_even (x / 2 powr real_of_int e)) * 2 powr real_of_int e"
proof -
  define y where "y = \<bar>x\<bar> / 2 powr real_of_int e"
  have y: "2 ^ 52 \<le> y" "y < 2 ^ 53" using assms by (simp_all add: y_def)
  then have y0: "0 < y" by simp
  then have x0: "x \<noteq> 0" by (auto simp: y_def)
  have "log 2 y = log 2 \<bar>x\<bar> - real_of_int e"
    using x0 by (simp add: y_def log_divide)
  moreover have "52 \<le> log 2 y" using y(1) y0 by (simp add: le_log_iff)
  moreover have "log 2 y < 53" using y(2) y0 by (simp add: log_less_iff)
  ultimately have "real_of_int (52 + e) \<le> log 2 \<bar>x\<bar>" "log 2 \<bar>x\<bar> < real_of_int (52 + e) + 1"
    by simp_all
  then have "\<lfloor>log 2 \<bar>x\<bar>\<rfloor> = 52 + e" by (rule floor_unique)
  then show ?thesis using x0 by (simp add: round_double_def)
qed

lemma round_double_scaled:
  assumes "2 ^ 52 \<le> \<bar>x\<bar> * 2 ^ n" and "\<bar>x\<bar> * 2 ^ n < 2 ^ 53"
  shows "round_double x = real_of_int (round_half_even (x * 2 ^ n)) / 2 ^ n"
proof -
  have p: "2 powr real_of_int (- int n) = 1 / 2 ^ n"
    by (simp add: powr_minus powr_realpow field_simps)
  from round_double_eval[of x "- int n"] assms show ?thesis
    unfolding p by simp
qed

lemma round_double_49th: "round_double (1 / 49) = 5882252574524729 / 2 ^ 58"
  using round_double_scaled[of "1 / 49" 58]
  by (simp add: round_half_even_def)

lemma round_double_49_times:
  "round_double (49 * (5882252574524729 / 2 ^ 58)) = 1 - 1 / 2 ^ 53"
  using round_double_scaled[of "49 * (5882252574524729 / 2 ^ 58)" 53]
  by (simp add: round_half_even_def)


definition ones7 :: Mat where
  "ones7 = uniform_mat 7 7 (Vec3b 1 1 1)"

lemma ones7_pixels:
  "pixels (roi ones7 (clamped_rect ones7 (new_QuadtreeNode 0 0 7 7)))
     = replicate 49 (Vec3b 1 1 1)"
proof -
  let ?b = "roi ones7 (clamped_rect ones7 (new_QuadtreeNode 0 0 7 7))"
  have u: "uniform_image ones7 (Vec3b 1 1 1)"
    by (simp add: uniform_image_def ones7_def uniform_mat_def)
  from roi_uniform[OF u, of "new_QuadtreeNode 0 0 7 7"] obtain k where
    k: "pixels ?b = replicate k (Vec3b 1 1 1)" by auto
  have "length (pixels ?b) = 49"
    by (simp add: length_pixels roi_def clamped_rect_sel ones7_def uniform_mat_def)
  with k show ?thesis by simp
qed

lemma ones7_mean:
  "cv_mean (roi ones7 (clamped_rect ones7 (new_QuadtreeNode 0 0 7 7))) k = 1 - 1 / 2 ^ 53"
  using round_double_49_times
  by (simp add: cv_mean_def ones7_pixels sum_list_replicate_real val_def round_double_49th)

lemma ones7_variance:
  "calculateVariance (roi ones7 (clamped_rect ones7 (new_QuadtreeNode 0 0 7 7)))
     = (1 / 2 ^ 53)\<^sup>2"
  by (simp add: calculateVariance_def Let_def mat_empty_def ones7_pixels ones7_mean
      sum_list_replicate_real val_def)
     (simp add: roi_def clamped_rect_sel ones7_def uniform_mat_def power2_eq_square)

lemma compressImage_no_target:
  assumes "targetCompressionPct q \<le> 0"
  shows "compressImage resize q img
           = (fst (build_tree (q\<lparr> maxDepth := 10 \<rparr>) new_BuildState img),
              q\<lparr> maxDepth := 10 \<rparr>,
              snd (build_tree (q\<lparr> maxDepth := 10 \<rparr>) new_BuildState img))"
  using assms by (simp add: compressImage_def Let_def case_prod_beta)

lemma ones7_is_split:
  "\<not> isLeaf (the (fst (compressImage id (new_Quadtree (1 / 10 ^ 40) 1 VARIANCE 0) ones7)))"
proof -
  define q where "q = (new_Quadtree (1 / 10 ^ 40) 1 VARIANCE 0)\<lparr> maxDepth := 10 \<rparr>"
  let ?b = "roi ones7 (clamped_rect ones7 (new_QuadtreeNode 0 0 7 7))"
  have sel: "minBlockSize q = 1" "maxDepth q = 10" "targetCompressionPct q = 0"
    "errorMethod q = VARIANCE" "threshold q = 1 / 10 ^ 40"
    by (simp_all add: q_def new_Quadtree_def)
  have img: "cols ones7 = 7" "rows ones7 = 7"
    by (simp_all add: ones7_def uniform_mat_def)
  have dims: "cols ?b = 7" "rows ?b = 7"
    by (simp_all add: roi_def clamped_rect_sel img)
  have err: "block_error q ?b c = (1 / 2 ^ 53)\<^sup>2" for c
    by (simp add: block_error_def sel calculateError_def mat_empty_def dims ones7_variance)
  have ne: "\<not> block_error q ?b c < threshold q" for c
    unfolding err sel by (simp add: power2_eq_square)
  have "\<exists>brk base hw hh rw rh s.
          decide q ones7 new_BuildState (new_QuadtreeNode 0 0 7 7) 0
            = Split brk base hw hh rw rh s"
    by (simp add: decide_def decide_metric_def ne Let_def new_BuildState_def MAX_NODES_def
        reset_modes_def clamped_rect_sel sel(1-4) img)
  then obtain brk base hw hh rw rh s where
    "decide q ones7 new_BuildState (new_QuadtreeNode 0 0 7 7) 0
       = Split brk base hw hh rw rh s" by blast
  then have s: "\<not> isLeaf (the (fst (quadtreeCompress q ones7 new_BuildState
                                    (Some (new_QuadtreeNode 0 0 7 7)) 0)))"
    by (simp add: quadtreeCompress_decide split: prod.splits)
  have t: "targetCompressionPct (new_Quadtree (1 / 10 ^ 40) 1 VARIANCE 0) \<le> 0"
    by (simp add: new_Quadtree_def)
  show ?thesis
    unfolding compressImage_no_target[OF t] q_def[symmetric]
    using s by (simp add: build_tree_def Let_def img)
qed




section \<open>Reconstruction from the tree\<close>






lemma in_box [simp]:
  "(px, py) \<in> box x y w h \<longleftrightarrow> x \<le> px \<and> px < x + w \<and> y \<le> py \<and> py < y + h"
  by (simp add: box_def)

lemma cv_rectangle_sel [simp]:
  "cols (cv_rectangle img r c) = cols img" "rows (cv_rectangle img r c) = rows img"
  "pixel_at (cv_rectangle img r c) i j =
     (if rect_y r \<le> i \<and> i < rect_y r + rect_height r
         \<and> rect_x r \<le> j \<and> j < rect_x r + rect_width r
      then c else pixel_at img i j)"
  by (simp_all add: cv_rectangle_def)










declare powerOf2_loop.simps [simp del]






subsection \<open>Minimum block size 2\<close>















section \<open>The adaptive search\<close>



definition tested :: "(real \<Rightarrow> real) \<Rightarrow> real \<Rightarrow> nat \<Rightarrow> real \<Rightarrow> search \<Rightarrow> search" where
  "tested trial targetPct iter t s =
     note_best t \<bar>trial t - targetPct\<bar>
       (s\<lparr> cur_threshold := t, events := events s @ [Testing (iter + 1) t],
           currentPct := trial t \<rparr>)"






lemma sel_note_best [simp]:
  "events (note_best t d s) = events s" "currentPct (note_best t d s) = currentPct s"
  "cur_threshold (note_best t d s) = cur_threshold s" "low (note_best t d s) = low s"
  "high (note_best t d s) = high s"
  "bestDifference (note_best t d s) = min (bestDifference s) d"
  "bestThreshold (note_best t d s) = (if d < bestDifference s then t else bestThreshold s)"
  by (simp_all add: note_best_def)

lemma sel_move_bound [simp]:
  "events (move_bound P t s) = events s" "currentPct (move_bound P t s) = currentPct s"
  "cur_threshold (move_bound P t s) = cur_threshold s"
  "bestDifference (move_bound P t s) = bestDifference s"
  "bestThreshold (move_bound P t s) = bestThreshold s"
  "low (move_bound P t s) = (if currentPct s < P then t else low s)"
  "high (move_bound P t s) = (if currentPct s < P then high s else t)"
  by (simp_all add: move_bound_def)

lemma sel_tested [simp]:
  "events (tested trial P iter t s) = events s @ [Testing (iter + 1) t]"
  "currentPct (tested trial P iter t s) = trial t"
  "cur_threshold (tested trial P iter t s) = t"
  "low (tested trial P iter t s) = low s" "high (tested trial P iter t s) = high s"
  "bestDifference (tested trial P iter t s) = min (bestDifference s) \<bar>trial t - P\<bar>"
  "bestThreshold (tested trial P iter t s)
     = (if \<bar>trial t - P\<bar> < bestDifference s then t else bestThreshold s)"
  by (simp_all add: tested_def)





















end
